theory Spec2Isabelle
  imports
    Complex_Main
    "HOL-Library.Word"
    "HOL-Library.Signed_Division"
    "HOL-Library.List_Lexorder"
    "HOL-Library.Char_ord"
begin

section \<open>The search server of \<^verbatim>\<open>main.cpp\<close>\<close>

text \<open>
  The C++ types are embedded as follows.
  \<^item> \<^verbatim>\<open>std::string\<close> is \<^typ>\<open>string\<close>, a list of bytes.
  \<^item> \<^verbatim>\<open>double\<close> is \<^typ>\<open>real\<close>: the arithmetic is exact, rounding is not modelled.
    What is proved of a score or a frequency is proved of its exact value; a bound on
    the rounding error of the code's doubles is outside this model.
  \<^item> A rating is an \<^verbatim>\<open>int\<close> that the code adds and divides, so it is a
    \<^typ>\<open>32 word\<close> read in two's complement by \<^const>\<open>sint\<close>; addition wraps around.
  \<^item> A document id is an \<^verbatim>\<open>int\<close> that the code only compares and uses as a key,
    so it is an \<^typ>\<open>int\<close>; the 32-bit ids are among them.
  \<^item> \<^verbatim>\<open>std::set<K>\<close> is the list of its elements in ascending order and
    \<^verbatim>\<open>std::map<K, V>\<close> the list of its entries in ascending key order, which is the
    order in which the code iterates over them. Strings are ordered as
    \<^verbatim>\<open>std::string\<close> orders them: lexicographically, bytes compared unsigned.
  \<^item> \<^verbatim>\<open>std::optional\<close> is \<^typ>\<open>'a option\<close>, and the exception thrown by
    \<^verbatim>\<open>std::map::at\<close> is the left injection of a sum.
  \<^item> A member \<^verbatim>\<open>name_\<close> of the class is the field \<open>name'\<close> of the record, and the
    member \<^verbatim>\<open>id\<close> of a result item is \<open>id'\<close>.
\<close>

subsection \<open>Constants and records\<close>

definition MAX_RESULT_DOCUMENT_COUNT :: nat where
  "MAX_RESULT_DOCUMENT_COUNT = 5"

definition DELTA :: real where
  "DELTA = 1 / 1000000"

definition INVALID_DOCUMENT_ID :: int where
  "INVALID_DOCUMENT_ID = - 1"

datatype DocumentStatus = ACTUAL | IRRELEVANT | BANNED | REMOVED

datatype error = out_of_range

record Document =
  id' :: int
  relevance :: real
  rating :: "32 word"

record DocumentData =
  rating :: "32 word"
  status :: DocumentStatus

record QueryWord =
  data :: string
  is_minus :: bool
  is_stop :: bool

record Query =
  plus_words :: "string list"
  minus_words :: "string list"

record SearchServer =
  stop_words' :: "string list"
  word_to_document_freqs' :: "(string \<times> (int \<times> real) list) list"
  documents' :: "(int \<times> DocumentData) list"

subsection \<open>Ordered containers\<close>

text \<open>\<^verbatim>\<open>std::set::insert\<close>: the element goes to its place in the order, once.\<close>

fun set_insert :: "'a::linorder \<Rightarrow> 'a list \<Rightarrow> 'a list" where
  "set_insert x [] = [x]"
| "set_insert x (y # ys) =
     (if x < y then x # y # ys
      else if x = y then y # ys
      else y # set_insert x ys)"

text \<open>Writing \<open>v\<close> under key \<open>k\<close>: a new entry at its place in the key order, or the
  value of the existing entry replaced.\<close>

fun map_store :: "'k::linorder \<Rightarrow> 'v \<Rightarrow> ('k \<times> 'v) list \<Rightarrow> ('k \<times> 'v) list" where
  "map_store k v [] = [(k, v)]"
| "map_store k v (e # es) =
     (if k < fst e then (k, v) # e # es
      else if k = fst e then (k, v) # es
      else e # map_store k v es)"

text \<open>\<^verbatim>\<open>count\<close>, \<^verbatim>\<open>at\<close> (which throws on a missing key), \<^verbatim>\<open>erase\<close> and
  \<^verbatim>\<open>emplace\<close> (which leaves an existing entry alone).\<close>

definition map_count :: "('k \<times> 'v) list \<Rightarrow> 'k \<Rightarrow> nat" where
  "map_count m k = (case map_of m k of None \<Rightarrow> 0 | Some v \<Rightarrow> 1)"

definition map_at :: "('k \<times> 'v) list \<Rightarrow> 'k \<Rightarrow> error + 'v" where
  "map_at m k = (case map_of m k of None \<Rightarrow> Inl out_of_range | Some v \<Rightarrow> Inr v)"

definition map_erase :: "'k \<Rightarrow> ('k \<times> 'v) list \<Rightarrow> ('k \<times> 'v) list" where
  "map_erase k m = filter (\<lambda>e. fst e \<noteq> k) m"

definition map_emplace :: "'k::linorder \<Rightarrow> 'v \<Rightarrow> ('k \<times> 'v) list \<Rightarrow> ('k \<times> 'v) list" where
  "map_emplace k v m = (if map_count m k > 0 then m else map_store k v m)"

text \<open>\<^verbatim>\<open>m[k] += x\<close> on a map of doubles: \<^verbatim>\<open>operator[]\<close> creates a missing entry
  with value 0.\<close>

definition map_add_assign :: "'k::linorder \<Rightarrow> real \<Rightarrow> ('k \<times> real) list \<Rightarrow> ('k \<times> real) list" where
  "map_add_assign k x m = map_store k ((case map_of m k of None \<Rightarrow> 0 | Some v \<Rightarrow> v) + x) m"

text \<open>\<^verbatim>\<open>word_to_document_freqs_[word][document_id] += x\<close>: the outer
  \<^verbatim>\<open>operator[]\<close> creates a missing posting map, empty.\<close>

definition add_term_freq ::
  "string \<Rightarrow> int \<Rightarrow> real \<Rightarrow> (string \<times> (int \<times> real) list) list
    \<Rightarrow> (string \<times> (int \<times> real) list) list" where
  "add_term_freq word document_id x freqs =
     map_store word
       (map_add_assign document_id x (case map_of freqs word of None \<Rightarrow> [] | Some p \<Rightarrow> p))
       freqs"

subsection \<open>Tokenizer and validation\<close>

text \<open>The loop of \<^verbatim>\<open>SplitIntoWords\<close>, with the word being read and the words read so
  far as arguments.\<close>

fun split_loop :: "string \<Rightarrow> string \<Rightarrow> string list \<Rightarrow> string list" where
  "split_loop [] word words = (if word \<noteq> [] then words @ [word] else words)"
| "split_loop (c # text) word words =
     (if c = CHR '' '' then
        (if word \<noteq> [] then split_loop text [] (words @ [word])
         else split_loop text word words)
      else split_loop text (word @ [c]) words)"

definition SplitIntoWords :: "string \<Rightarrow> string list" where
  "SplitIntoWords text = split_loop text [] []"

text \<open>The value of a \<^verbatim>\<open>char\<close>, signed as on the usual targets. The test of
  \<^verbatim>\<open>IsValidWord\<close> selects the bytes 0 to 31 whether \<^verbatim>\<open>char\<close> is signed or not.\<close>

definition char_value :: "char \<Rightarrow> int" where
  "char_value c = (if of_char c < (128 :: nat) then int (of_char c) else int (of_char c) - 256)"

definition is_control :: "char \<Rightarrow> bool" where
  "is_control c = (0 \<le> char_value c \<and> char_value c < 32)"

definition IsValidWord :: "string \<Rightarrow> bool" where
  "IsValidWord word = (if word = ''-'' then False else \<not> list_ex is_control word)"

subsection \<open>Construction and stop words\<close>

definition SearchServer_default :: SearchServer where
  "SearchServer_default =
     \<lparr>stop_words' = [], word_to_document_freqs' = [], documents' = []\<rparr>"

definition SearchServer_new :: "string list \<Rightarrow> SearchServer" where
  "SearchServer_new stop_words =
     SearchServer_default
       \<lparr>stop_words' := fold (\<lambda>word sw. if length word \<noteq> 0 then set_insert word sw else sw)
          stop_words []\<rparr>"

definition SearchServer_of_text :: "string \<Rightarrow> SearchServer" where
  "SearchServer_of_text stop_words_text = SearchServer_new (SplitIntoWords stop_words_text)"

definition SetStopWords :: "SearchServer \<Rightarrow> string \<Rightarrow> SearchServer" where
  "SetStopWords s text =
     s\<lparr>stop_words' := fold set_insert (SplitIntoWords text) (stop_words' s)\<rparr>"

definition IsStopWord :: "SearchServer \<Rightarrow> string \<Rightarrow> bool" where
  "IsStopWord s word = (word \<in> set (stop_words' s))"

definition SplitIntoWordsNoStop :: "SearchServer \<Rightarrow> string \<Rightarrow> string list" where
  "SplitIntoWordsNoStop s text = filter (\<lambda>word. \<not> IsStopWord s word) (SplitIntoWords text)"

subsection \<open>Ingestion\<close>

text \<open>The sum is an \<^verbatim>\<open>int\<close> and wraps around; the quotient is C++ division, which
  truncates toward zero (\<open>sdiv\<close>), by the size cast to \<^verbatim>\<open>int\<close>.\<close>

definition ComputeAverageRating :: "32 word list \<Rightarrow> 32 word" where
  "ComputeAverageRating ratings =
     (if ratings = [] then 0
      else
        let rating_sum = fold (\<lambda>rating rating_sum. rating_sum + rating) ratings 0
        in word_of_int (sint rating_sum sdiv sint (word_of_nat (length ratings) :: 32 word)))"

definition AddDocument ::
  "SearchServer \<Rightarrow> int \<Rightarrow> string \<Rightarrow> DocumentStatus \<Rightarrow> 32 word list \<Rightarrow> bool \<times> SearchServer" where
  "AddDocument s document_id document doc_status ratings =
     (if document_id < 0 \<or> map_count (documents' s) document_id > 0 \<or> \<not> IsValidWord document
      then (False, s)
      else
        let words = SplitIntoWordsNoStop s document;
            doc_data = \<lparr>DocumentData.rating = ComputeAverageRating ratings, status = doc_status\<rparr>
        in
          if words = [] then
            (True, s\<lparr>documents' := map_emplace document_id doc_data (documents' s)\<rparr>)
          else
            let inv_word_count = 1 / real (length words)
            in (True,
                s\<lparr>word_to_document_freqs' :=
                    fold (\<lambda>word. add_term_freq word document_id inv_word_count) words
                      (word_to_document_freqs' s),
                  documents' := map_emplace document_id doc_data (documents' s)\<rparr>))"

text \<open>The size of the store, which the code casts to \<^verbatim>\<open>int\<close>. The cast changes
  nothing while the store has fewer than \<open>2^31\<close> documents.\<close>

definition GetDocumentCount :: "SearchServer \<Rightarrow> int" where
  "GetDocumentCount s = int (length (documents' s))"

fun find_at_index :: "(int \<times> DocumentData) list \<Rightarrow> nat \<Rightarrow> int \<Rightarrow> int" where
  "find_at_index [] doc_index index = INVALID_DOCUMENT_ID"
| "find_at_index (doc # rest) doc_index index =
     (if int doc_index = index then fst doc
      else find_at_index rest (Suc doc_index) index)"

definition GetDocumentId :: "SearchServer \<Rightarrow> int \<Rightarrow> int" where
  "GetDocumentId s index =
     (if index < 0 \<or> index \<ge> int (length (documents' s)) then INVALID_DOCUMENT_ID
      else find_at_index (documents' s) 0 index)"

subsection \<open>Query parsing\<close>

text \<open>\<^verbatim>\<open>text[i]\<close> on a \<^verbatim>\<open>std::string\<close>: the byte at \<open>i\<close>, and the terminating
  zero byte at the end of the string.\<close>

definition char_at :: "string \<Rightarrow> nat \<Rightarrow> char" where
  "char_at text i = (if i < length text then text ! i else CHR 0x00)"

definition ParseQueryWord :: "SearchServer \<Rightarrow> string \<Rightarrow> QueryWord option" where
  "ParseQueryWord s text =
     (if \<not> IsValidWord text then None
      else if char_at text 0 = CHR ''-'' then
        (if char_at text 1 = CHR ''-'' then None
         else Some \<lparr>data = drop 1 text, is_minus = True, is_stop = IsStopWord s (drop 1 text)\<rparr>)
      else Some \<lparr>data = text, is_minus = False, is_stop = IsStopWord s text\<rparr>)"

fun parse_loop :: "SearchServer \<Rightarrow> string list \<Rightarrow> Query \<Rightarrow> Query option" where
  "parse_loop s [] result = Some result"
| "parse_loop s (word # rest) result =
     (case ParseQueryWord s word of
        None \<Rightarrow> None
      | Some query_word \<Rightarrow>
          parse_loop s rest
            (if \<not> is_stop query_word then
               (if is_minus query_word
                then result\<lparr>minus_words := set_insert (data query_word) (minus_words result)\<rparr>
                else result\<lparr>plus_words := set_insert (data query_word) (plus_words result)\<rparr>)
             else result))"

definition ParseQuery :: "SearchServer \<Rightarrow> string \<Rightarrow> Query option" where
  "ParseQuery s text = parse_loop s (SplitIntoWords text) \<lparr>plus_words = [], minus_words = []\<rparr>"

subsection \<open>Ranking\<close>

definition ComputeWordInverseDocumentFreq :: "SearchServer \<Rightarrow> string \<Rightarrow> error + real" where
  "ComputeWordInverseDocumentFreq s word =
     (case map_at (word_to_document_freqs' s) word of
        Inl e \<Rightarrow> Inl e
      | Inr posting \<Rightarrow> Inr (ln (real_of_int (GetDocumentCount s) * 1 / real (length posting))))"

text \<open>The inner loop over the postings of one required word.\<close>

fun score_postings ::
  "SearchServer \<Rightarrow> (int \<Rightarrow> DocumentStatus \<Rightarrow> 32 word \<Rightarrow> bool) \<Rightarrow> real \<Rightarrow> (int \<times> real) list
    \<Rightarrow> (int \<times> real) list \<Rightarrow> error + (int \<times> real) list" where
  "score_postings s key_mapper inverse_document_freq [] document_to_relevance =
     Inr document_to_relevance"
| "score_postings s key_mapper inverse_document_freq (posting # rest) document_to_relevance =
     (case map_at (documents' s) (fst posting) of
        Inl e \<Rightarrow> Inl e
      | Inr doc_data \<Rightarrow>
          score_postings s key_mapper inverse_document_freq rest
            (if key_mapper (fst posting) (status doc_data) (DocumentData.rating doc_data)
             then map_add_assign (fst posting) (snd posting * inverse_document_freq) document_to_relevance
             else document_to_relevance))"

text \<open>The loop over the required words.\<close>

fun score_plus_words ::
  "SearchServer \<Rightarrow> (int \<Rightarrow> DocumentStatus \<Rightarrow> 32 word \<Rightarrow> bool) \<Rightarrow> string list
    \<Rightarrow> (int \<times> real) list \<Rightarrow> error + (int \<times> real) list" where
  "score_plus_words s key_mapper [] document_to_relevance = Inr document_to_relevance"
| "score_plus_words s key_mapper (word # rest) document_to_relevance =
     (if map_count (word_to_document_freqs' s) word = 0
      then score_plus_words s key_mapper rest document_to_relevance
      else
        (case ComputeWordInverseDocumentFreq s word of
           Inl e \<Rightarrow> Inl e
         | Inr inverse_document_freq \<Rightarrow>
             (case map_at (word_to_document_freqs' s) word of
                Inl e \<Rightarrow> Inl e
              | Inr posting \<Rightarrow>
                  (case score_postings s key_mapper inverse_document_freq posting
                          document_to_relevance of
                     Inl e \<Rightarrow> Inl e
                   | Inr scored \<Rightarrow> score_plus_words s key_mapper rest scored))))"

text \<open>The loop over the excluded words.\<close>

fun erase_minus_words ::
  "SearchServer \<Rightarrow> string list \<Rightarrow> (int \<times> real) list \<Rightarrow> error + (int \<times> real) list" where
  "erase_minus_words s [] document_to_relevance = Inr document_to_relevance"
| "erase_minus_words s (word # rest) document_to_relevance =
     (if map_count (word_to_document_freqs' s) word = 0
      then erase_minus_words s rest document_to_relevance
      else
        (case map_at (word_to_document_freqs' s) word of
           Inl e \<Rightarrow> Inl e
         | Inr posting \<Rightarrow>
             erase_minus_words s rest
               (fold (\<lambda>entry. map_erase (fst entry)) posting document_to_relevance)))"

text \<open>The last loop, which builds the result items.\<close>

fun collect_documents :: "SearchServer \<Rightarrow> (int \<times> real) list \<Rightarrow> error + Document list" where
  "collect_documents s [] = Inr []"
| "collect_documents s (entry # rest) =
     (case map_at (documents' s) (fst entry) of
        Inl e \<Rightarrow> Inl e
      | Inr doc_data \<Rightarrow>
          (case collect_documents s rest of
             Inl e \<Rightarrow> Inl e
           | Inr matched_documents \<Rightarrow>
               Inr (\<lparr>id' = fst entry, relevance = snd entry,
                     rating = DocumentData.rating doc_data\<rparr> # matched_documents)))"

definition FindAllDocuments ::
  "SearchServer \<Rightarrow> Query \<Rightarrow> (int \<Rightarrow> DocumentStatus \<Rightarrow> 32 word \<Rightarrow> bool)
    \<Rightarrow> error + Document list" where
  "FindAllDocuments s query key_mapper =
     (case score_plus_words s key_mapper (plus_words query) [] of
        Inl e \<Rightarrow> Inl e
      | Inr scored \<Rightarrow>
          (case erase_minus_words s (minus_words query) scored of
             Inl e \<Rightarrow> Inl e
           | Inr document_to_relevance \<Rightarrow> collect_documents s document_to_relevance))"

text \<open>The comparator passed to \<^verbatim>\<open>std::sort\<close>: \<open>lhs\<close> goes before \<open>rhs\<close>.\<close>

definition relevance_then_rating :: "Document \<Rightarrow> Document \<Rightarrow> bool" where
  "relevance_then_rating lhs rhs =
     (if \<bar>relevance lhs - relevance rhs\<bar> < DELTA
      then sint (Document.rating rhs) < sint (Document.rating lhs)
      else relevance rhs < relevance lhs)"

text \<open>
  \<^verbatim>\<open>std::sort\<close> belongs to the C++ library, not to the repository. The standard fixes its
  result, up to the order of equivalent elements, only when the comparator is a strict
  weak ordering. It is modelled by insertion sort, the library's own choice for short
  ranges.
\<close>

fun sort_insert :: "('a \<Rightarrow> 'a \<Rightarrow> bool) \<Rightarrow> 'a \<Rightarrow> 'a list \<Rightarrow> 'a list" where
  "sort_insert cmp x [] = [x]"
| "sort_insert cmp x (y # ys) =
     (if cmp x y then x # y # ys else y # sort_insert cmp x ys)"

definition std_sort :: "('a \<Rightarrow> 'a \<Rightarrow> bool) \<Rightarrow> 'a list \<Rightarrow> 'a list" where
  "std_sort cmp xs = fold (sort_insert cmp) xs []"

definition FindTopDocuments ::
  "SearchServer \<Rightarrow> string \<Rightarrow> (int \<Rightarrow> DocumentStatus \<Rightarrow> 32 word \<Rightarrow> bool)
    \<Rightarrow> error + Document list option" where
  "FindTopDocuments s raw_query document_predicate =
     (let query = ParseQuery s raw_query
      in if \<not> IsValidWord raw_query \<or> query = None then Inr None
         else
           (case FindAllDocuments s (the query) document_predicate of
              Inl e \<Rightarrow> Inl e
            | Inr result \<Rightarrow>
                Inr (Some (take MAX_RESULT_DOCUMENT_COUNT (std_sort relevance_then_rating result)))))"

definition FindTopDocuments_status ::
  "SearchServer \<Rightarrow> string \<Rightarrow> DocumentStatus \<Rightarrow> error + Document list option" where
  "FindTopDocuments_status s raw_query status' =
     FindTopDocuments s raw_query (\<lambda>document_id doc_status rating. doc_status = status')"

definition FindTopDocuments_actual :: "SearchServer \<Rightarrow> string \<Rightarrow> error + Document list option" where
  "FindTopDocuments_actual s raw_query = FindTopDocuments_status s raw_query ACTUAL"

subsection \<open>Matching\<close>

definition has_posting :: "SearchServer \<Rightarrow> string \<Rightarrow> int \<Rightarrow> bool" where
  "has_posting s word document_id =
     (case map_of (word_to_document_freqs' s) word of
        None \<Rightarrow> False
      | Some posting \<Rightarrow> map_count posting document_id > 0)"

definition MatchDocument ::
  "SearchServer \<Rightarrow> string \<Rightarrow> int \<Rightarrow> error + (string list \<times> DocumentStatus) option" where
  "MatchDocument s raw_query document_id =
     (let query = ParseQuery s raw_query
      in if \<not> IsValidWord raw_query \<or> query = None then Inr None
         else
           let matched_words =
                 filter (\<lambda>word. has_posting s word document_id) (plus_words (the query));
               matched_words =
                 (if list_ex (\<lambda>word. has_posting s word document_id) (minus_words (the query))
                  then [] else matched_words)
           in (case map_at (documents' s) document_id of
                 Inl e \<Rightarrow> Inl e
               | Inr doc_data \<Rightarrow> Inr (Some (matched_words, status doc_data))))"


section \<open>The notions of the specification\<close>

text \<open>
  The invariant of the two maps, which every state that the public operations can
  produce satisfies (lemma \<open>well_formed_run\<close> below): the keys of each map ascend
  strictly, and every document id in a posting map is a key of the document store.
\<close>

definition well_formed :: "SearchServer \<Rightarrow> bool" where
  "well_formed s =
     (sorted_wrt (<) (map fst (documents' s)) \<and>
      sorted_wrt (<) (map fst (word_to_document_freqs' s)) \<and>
      list_all
        (\<lambda>entry. sorted_wrt (<) (map fst (snd entry)) \<and>
           list_all (\<lambda>posting. map_count (documents' s) (fst posting) > 0) (snd entry))
        (word_to_document_freqs' s))"

text \<open>
  A caller's calls of the two mutating operations, run in sequence.
\<close>

datatype call =
  CallAddDocument int string DocumentStatus "32 word list"
| CallSetStopWords string

fun exec_call :: "call \<Rightarrow> SearchServer \<Rightarrow> SearchServer" where
  "exec_call (CallAddDocument document_id document doc_status ratings) s =
     snd (AddDocument s document_id document doc_status ratings)"
| "exec_call (CallSetStopWords text) s = SetStopWords s text"

definition run :: "SearchServer \<Rightarrow> call list \<Rightarrow> SearchServer" where
  "run s calls = fold exec_call calls s"

text \<open>
  The mean of a list of integers, truncated toward zero, and 0 for the empty list.
\<close>

definition integer_mean :: "int list \<Rightarrow> int" where
  "integer_mean xs = (if xs = [] then 0 else sum_list xs sdiv int (length xs))"

text \<open>
  The sum, over the terms of the index, of the frequencies recorded for a document.
\<close>

definition term_freq_sum :: "SearchServer \<Rightarrow> int \<Rightarrow> real" where
  "term_freq_sum s document_id =
     sum_list (map (\<lambda>entry. case map_of (snd entry) document_id of
                                None \<Rightarrow> 0 | Some term_freq \<Rightarrow> term_freq)
       (word_to_document_freqs' s))"

text \<open>
  A raw query is malformed when one of its tokens begins with two minus signs or is a
  lone minus sign, or when it has a byte below 32.
\<close>

definition malformed_query :: "string \<Rightarrow> bool" where
  "malformed_query raw_query =
     (list_ex (\<lambda>token. take 2 token = ''--'' \<or> token = ''-'') (SplitIntoWords raw_query) \<or>
      list_ex (\<lambda>c. (of_char c :: nat) < 32) raw_query)"

text \<open>
  A document matches a query under a predicate when it has a posting under a required
  term, the predicate accepts its id, status and rating, and it has no posting under an
  excluded term.
\<close>

definition accepted :: "SearchServer \<Rightarrow> (int \<Rightarrow> DocumentStatus \<Rightarrow> 32 word \<Rightarrow> bool) \<Rightarrow> int \<Rightarrow> bool" where
  "accepted s document_predicate document_id =
     (case map_of (documents' s) document_id of
        None \<Rightarrow> False
      | Some doc_data \<Rightarrow>
          document_predicate document_id (status doc_data) (DocumentData.rating doc_data))"

definition matches ::
  "SearchServer \<Rightarrow> Query \<Rightarrow> (int \<Rightarrow> DocumentStatus \<Rightarrow> 32 word \<Rightarrow> bool) \<Rightarrow> int \<Rightarrow> bool" where
  "matches s query document_predicate document_id =
     (list_ex (\<lambda>word. has_posting s word document_id) (plus_words query) \<and>
      accepted s document_predicate document_id \<and>
      \<not> list_ex (\<lambda>word. has_posting s word document_id) (minus_words query))"

text \<open>
  Two scores are near when they differ by less than \<open>1e-6\<close>. A result list is ranked
  when each item stands before every later one in the order of the claim: a higher score
  first, and among near scores a rating that is not lower.
\<close>

definition near_scores :: "Document \<Rightarrow> Document \<Rightarrow> bool" where
  "near_scores a b = (\<bar>relevance a - relevance b\<bar> < 1 / 1000000)"

definition ranked_before :: "Document \<Rightarrow> Document \<Rightarrow> bool" where
  "ranked_before a b =
     (if near_scores a b then sint (Document.rating b) \<le> sint (Document.rating a)
      else relevance b < relevance a)"

definition ranked :: "Document list \<Rightarrow> bool" where
  "ranked result = sorted_wrt ranked_before result"

definition disjoint_query :: "Query \<Rightarrow> bool" where
  "disjoint_query query = (set (plus_words query) \<inter> set (minus_words query) = {})"


subsection \<open>Auxiliary notions of the proofs\<close>

definition result_item :: "SearchServer \<Rightarrow> int \<times> real \<Rightarrow> Document" where
  "result_item s entry =
     \<lparr>id' = fst entry, relevance = snd entry,
      rating = DocumentData.rating (the (map_of (documents' s) (fst entry)))\<rparr>"

definition zero_or_absent :: "(int \<times> real) list \<Rightarrow> int \<Rightarrow> bool" where
  "zero_or_absent m k = (map_of m k = None \<or> map_of m k = Some 0)"

definition postings_within :: "int set \<Rightarrow> (string \<times> (int \<times> real) list) list \<Rightarrow> bool" where
  "postings_within D freqs =
     (sorted_wrt (<) (map fst freqs) \<and>
      (\<forall>entry\<in>set freqs. sorted_wrt (<) (map fst (snd entry)) \<and> fst ` set (snd entry) \<subseteq> D))"

definition posting_freq :: "(int \<times> real) list \<Rightarrow> int \<Rightarrow> real" where
  "posting_freq posting document_id =
     (case map_of posting document_id of None \<Rightarrow> 0 | Some term_freq \<Rightarrow> term_freq)"

definition posted :: "(string \<times> (int \<times> real) list) list \<Rightarrow> string \<Rightarrow> int \<Rightarrow> bool" where
  "posted freqs w d = (\<exists>p. map_of freqs w = Some p \<and> d \<in> fst ` set p)"


subsection \<open>Example states\<close>

text \<open>
  The server of the program's \<^verbatim>\<open>main\<close>, with the words transliterated, and the predicate
  that accepts every document.
\<close>

definition example_server :: SearchServer where
  "example_server =
     run (SearchServer_of_text ''i v na'')
       [CallAddDocument 1 ''fluffy cat fluffy tail'' ACTUAL [7, 2, 7],
        CallAddDocument 3 ''fluffy dog i trendy collar'' ACTUAL [1, 2]]"

definition accept_all :: "int \<Rightarrow> DocumentStatus \<Rightarrow> 32 word \<Rightarrow> bool" where
  "accept_all document_id doc_status doc_rating = True"

text \<open>
  Six documents with the same single word.
\<close>

definition six_cats :: SearchServer where
  "six_cats =
     run SearchServer_default
       [CallAddDocument 1 ''cat'' ACTUAL [], CallAddDocument 2 ''cat'' ACTUAL [],
        CallAddDocument 3 ''cat'' ACTUAL [], CallAddDocument 4 ''cat'' ACTUAL [],
        CallAddDocument 5 ''cat'' ACTUAL [], CallAddDocument 6 ''cat'' ACTUAL []]"

text \<open>
  Three documents of a million words each, in which the word \<open>w\<close> occurs once, twice
  and three times, and three documents without it. The ratings descend as the
  frequencies ascend.
\<close>

definition many_words :: "nat \<Rightarrow> string \<Rightarrow> string" where
  "many_words n word = concat (replicate n (word @ '' ''))"

definition ring_document :: "nat \<Rightarrow> string" where
  "ring_document k = many_words k ''w'' @ many_words (1000000 - k) ''x''"

definition ring_server :: SearchServer where
  "ring_server =
     run SearchServer_default
       [CallAddDocument 1 (ring_document 1) ACTUAL [3],
        CallAddDocument 2 (ring_document 2) ACTUAL [2],
        CallAddDocument 3 (ring_document 3) ACTUAL [1],
        CallAddDocument 4 ''x'' ACTUAL [],
        CallAddDocument 5 ''x'' ACTUAL [],
        CallAddDocument 6 ''x'' ACTUAL []]"

definition ring_item_1 :: Document where
  "ring_item_1 = \<lparr>id' = 1, relevance = 1 / 1000000 * ln 2, rating = 3\<rparr>"

definition ring_item_2 :: Document where
  "ring_item_2 = \<lparr>id' = 2, relevance = 2 / 1000000 * ln 2, rating = 2\<rparr>"

definition ring_item_3 :: Document where
  "ring_item_3 = \<lparr>id' = 3, relevance = 3 / 1000000 * ln 2, rating = 1\<rparr>"


section \<open>Containers and validation\<close>

lemma set_set_insert: "set (set_insert x xs) = insert x (set xs)"
  by (induction xs) auto

lemma map_of_map_store: "map_of (map_store k v m) = (map_of m)(k \<mapsto> v)"
  by (induction m) (auto simp: fun_eq_iff)

lemma keys_map_store: "fst ` set (map_store k v m) = insert k (fst ` set m)"
  by (induction m) auto

lemma set_map_store: "set (map_store k v m) \<subseteq> insert (k, v) (set m)"
  by (induction m) auto

lemma sorted_map_store:
  "sorted_wrt (<) (map fst m) \<Longrightarrow> sorted_wrt (<) (map fst (map_store k v m))"
  by (induction m) (auto simp: keys_map_store)

lemma map_store_twice: "map_store k v (map_store k u m) = map_store k v m"
  by (induction m) auto

lemma map_count_pos: "(map_count m k > 0) = (k \<in> fst ` set m)"
  by (simp add: map_count_def map_of_eq_None_iff split: option.splits)
     (metis map_of_eq_None_iff option.distinct(1))

lemma map_at_Inr: "k \<in> fst ` set m \<Longrightarrow> \<exists>v. map_at m k = Inr v \<and> map_of m k = Some v"
  by (cases "map_of m k") (auto simp: map_at_def map_of_eq_None_iff)

lemma keys_map_of: "fst ` set m = {k. map_of m k \<noteq> None}"
  by (auto simp: map_of_eq_None_iff)

lemma keys_map_add: "fst ` set (map_add_assign k x m) = insert k (fst ` set m)"
  by (simp add: map_add_assign_def keys_map_store)

lemma map_of_map_add:
  "map_of (map_add_assign k x m) = (map_of m)(k \<mapsto> (case map_of m k of None \<Rightarrow> 0 | Some v \<Rightarrow> v) + x)"
  by (simp add: map_add_assign_def map_of_map_store)

lemma sorted_map_add: "sorted_wrt (<) (map fst m) \<Longrightarrow> sorted_wrt (<) (map fst (map_add_assign k x m))"
  by (simp add: map_add_assign_def sorted_map_store)

lemma map_of_map_erase: "map_of (map_erase k m) = (map_of m)(k := None)"
  by (induction m) (auto simp: map_erase_def fun_eq_iff)

lemma is_control_code: "is_control c = ((of_char c :: nat) < 32)"
proof -
  have "(of_char c :: nat) < 256" by (rule nat_of_char_less_256)
  then show ?thesis
    unfolding is_control_def char_value_def
    by (cases "(of_char c :: nat) < 128") (simp_all only: if_True if_False, linarith+)
qed

lemma IsValidWord_iff:
  "IsValidWord word = (word \<noteq> ''-'' \<and> (\<forall>c\<in>set word. \<not> (of_char c :: nat) < 32))"
  by (simp add: IsValidWord_def list_ex_iff is_control_code)


section \<open>The example states, evaluated\<close>

lemmas eval_defs =
  run_def SearchServer_of_text_def SearchServer_new_def SearchServer_default_def
  SplitIntoWords_def AddDocument_def map_count_def IsValidWord_def is_control_def char_value_def
  SplitIntoWordsNoStop_def IsStopWord_def map_emplace_def add_term_freq_def map_add_assign_def
  ComputeAverageRating_def Let_def

lemmas query_defs =
  ParseQuery_def ParseQueryWord_def char_at_def SplitIntoWords_def IsValidWord_def
  is_control_def char_value_def IsStopWord_def

lemmas find_defs =
  FindTopDocuments_def FindAllDocuments_def ComputeWordInverseDocumentFreq_def map_at_def
  map_count_def GetDocumentCount_def map_add_assign_def map_erase_def std_sort_def
  relevance_then_rating_def DELTA_def MAX_RESULT_DOCUMENT_COUNT_def

lemma example_server_eq:
  "example_server =
     \<lparr>stop_words' = [''i'', ''na'', ''v''],
      word_to_document_freqs' =
        [(''cat'', [(1, 1 / 4)]), (''collar'', [(3, 1 / 4)]), (''dog'', [(3, 1 / 4)]),
         (''fluffy'', [(1, 1 / 2), (3, 1 / 4)]), (''tail'', [(1, 1 / 4)]),
         (''trendy'', [(3, 1 / 4)])],
      documents' =
        [(1, \<lparr>DocumentData.rating = 5, status = ACTUAL\<rparr>),
         (3, \<lparr>DocumentData.rating = 1, status = ACTUAL\<rparr>)]\<rparr>"
  by (simp add: example_server_def eval_defs)

lemma example_server_well_formed: "well_formed example_server"
  by (simp add: well_formed_def example_server_eq map_count_def)

lemma six_cats_eq:
  "six_cats =
     \<lparr>stop_words' = [],
      word_to_document_freqs' =
        [(''cat'', [(1, 1), (2, 1), (3, 1), (4, 1), (5, 1), (6, 1)])],
      documents' =
        [(1, \<lparr>DocumentData.rating = 0, status = ACTUAL\<rparr>),
         (2, \<lparr>DocumentData.rating = 0, status = ACTUAL\<rparr>),
         (3, \<lparr>DocumentData.rating = 0, status = ACTUAL\<rparr>),
         (4, \<lparr>DocumentData.rating = 0, status = ACTUAL\<rparr>),
         (5, \<lparr>DocumentData.rating = 0, status = ACTUAL\<rparr>),
         (6, \<lparr>DocumentData.rating = 0, status = ACTUAL\<rparr>)]\<rparr>"
  by (simp add: six_cats_def eval_defs)


section \<open>Well-formed states\<close>

lemma well_formed_iff:
  "well_formed s =
     (sorted_wrt (<) (map fst (documents' s)) \<and>
      postings_within (fst ` set (documents' s)) (word_to_document_freqs' s))"
  by (auto simp: well_formed_def postings_within_def list_all_iff map_count_pos)

lemma well_formed_posting:
  assumes "well_formed s" "map_of (word_to_document_freqs' s) w = Some posting"
  shows "\<forall>e\<in>set posting. fst e \<in> fst ` set (documents' s)"
proof -
  from assms(2) have "(w, posting) \<in> set (word_to_document_freqs' s)"
    by (rule map_of_SomeD)
  with assms(1) have "list_all (\<lambda>e. map_count (documents' s) (fst e) > 0) posting"
    by (auto simp: well_formed_def list_all_iff)
  then show ?thesis
    by (simp add: list_all_iff map_count_pos)
qed

lemma has_posting_iff:
  "has_posting s w d = (\<exists>posting. map_of (word_to_document_freqs' s) w = Some posting \<and> d \<in> fst ` set posting)"
  by (auto simp: has_posting_def map_count_pos split: option.splits)

lemma postings_within_add_term_freq:
  assumes "postings_within D freqs" "d \<in> D"
  shows "postings_within D (add_term_freq w d x freqs)"
proof -
  let ?p0 = "case map_of freqs w of None \<Rightarrow> [] | Some p \<Rightarrow> p"
  have p0: "sorted_wrt (<) (map fst ?p0) \<and> fst ` set ?p0 \<subseteq> D"
  proof (cases "map_of freqs w")
    case None
    then show ?thesis by simp
  next
    case (Some p)
    then have "(w, p) \<in> set freqs" by (rule map_of_SomeD)
    with assms(1) have "sorted_wrt (<) (map fst (snd (w, p))) \<and> fst ` set (snd (w, p)) \<subseteq> D"
      unfolding postings_within_def by blast
    with Some show ?thesis by simp
  qed
  have new: "sorted_wrt (<) (map fst (map_add_assign d x ?p0)) \<and> fst ` set (map_add_assign d x ?p0) \<subseteq> D"
    using p0 assms(2) by (simp add: sorted_map_add keys_map_add)
  have "\<forall>entry\<in>set (map_store w (map_add_assign d x ?p0) freqs).
      sorted_wrt (<) (map fst (snd entry)) \<and> fst ` set (snd entry) \<subseteq> D"
  proof
    fix entry assume "entry \<in> set (map_store w (map_add_assign d x ?p0) freqs)"
    with set_map_store [of w "map_add_assign d x ?p0" freqs]
    have "entry = (w, map_add_assign d x ?p0) \<or> entry \<in> set freqs" by auto
    then show "sorted_wrt (<) (map fst (snd entry)) \<and> fst ` set (snd entry) \<subseteq> D"
    proof
      assume "entry = (w, map_add_assign d x ?p0)"
      with new show ?thesis by simp
    next
      assume "entry \<in> set freqs"
      with assms(1) show ?thesis unfolding postings_within_def by blast
    qed
  qed
  moreover have "sorted_wrt (<) (map fst (map_store w (map_add_assign d x ?p0) freqs))"
    using assms(1) by (simp add: postings_within_def sorted_map_store)
  ultimately show ?thesis
    by (simp add: postings_within_def add_term_freq_def)
qed

lemma postings_within_fold:
  assumes "postings_within D freqs" "d \<in> D"
  shows "postings_within D (fold (\<lambda>word. add_term_freq word d x) ws freqs)"
  using assms(1)
  by (induction ws arbitrary: freqs) (simp_all add: postings_within_add_term_freq assms(2))

lemma postings_within_mono: "postings_within D freqs \<Longrightarrow> D \<subseteq> E \<Longrightarrow> postings_within E freqs"
  by (auto simp: postings_within_def)

lemma AddDocument_accepted:
  assumes "fst (AddDocument s d document st rs)"
  shows "0 \<le> d \<and> d \<notin> fst ` set (documents' s) \<and> IsValidWord document \<and>
    documents' (snd (AddDocument s d document st rs)) =
      map_store d \<lparr>DocumentData.rating = ComputeAverageRating rs, status = st\<rparr> (documents' s) \<and>
    stop_words' (snd (AddDocument s d document st rs)) = stop_words' s \<and>
    word_to_document_freqs' (snd (AddDocument s d document st rs)) =
      fold (\<lambda>word. add_term_freq word d (1 / real (length (SplitIntoWordsNoStop s document))))
        (SplitIntoWordsNoStop s document) (word_to_document_freqs' s)"
proof -
  from assms have ok: "\<not> (d < 0 \<or> map_count (documents' s) d > 0 \<or> \<not> IsValidWord document)"
    by (auto simp: AddDocument_def split: if_splits)
  then have fresh: "d \<notin> fst ` set (documents' s)" and cnt: "map_count (documents' s) d = 0"
    using map_count_pos [of "documents' s" d] by auto
  show ?thesis
    using ok fresh cnt
    by (cases "SplitIntoWordsNoStop s document = []")
       (simp_all add: AddDocument_def Let_def map_emplace_def)
qed

lemma AddDocument_unchanged: "\<not> fst (AddDocument s d document st rs) \<Longrightarrow> snd (AddDocument s d document st rs) = s"
  by (auto simp: AddDocument_def Let_def split: if_splits)

lemma AddDocument_fst_iff:
  "fst (AddDocument s d document st rs) =
     (0 \<le> d \<and> d \<notin> fst ` set (documents' s) \<and> IsValidWord document)"
  using map_count_pos [of "documents' s" d]
  by (auto simp: AddDocument_def Let_def)

lemma well_formed_AddDocument:
  assumes "well_formed s"
  shows "well_formed (snd (AddDocument s d document st rs))"
proof (cases "fst (AddDocument s d document st rs)")
  case False
  with assms show ?thesis by (simp add: AddDocument_unchanged)
next
  case True
  note a = AddDocument_accepted [OF True]
  let ?D = "insert d (fst ` set (documents' s))"
  from assms have "postings_within ?D (word_to_document_freqs' s)"
    by (auto simp: well_formed_iff intro: postings_within_mono)
  then have "postings_within ?D (word_to_document_freqs' (snd (AddDocument s d document st rs)))"
    using a by (simp add: postings_within_fold)
  moreover have "sorted_wrt (<) (map fst (documents' (snd (AddDocument s d document st rs))))"
    using a assms by (simp add: well_formed_iff sorted_map_store)
  moreover have "fst ` set (documents' (snd (AddDocument s d document st rs))) = ?D"
    using a by (simp add: keys_map_store)
  ultimately show ?thesis by (simp add: well_formed_iff)
qed

lemma well_formed_SetStopWords: "well_formed s \<Longrightarrow> well_formed (SetStopWords s str)"
  by (simp add: well_formed_def SetStopWords_def)

lemma well_formed_new: "well_formed (SearchServer_new stop_words)"
  by (simp add: well_formed_def SearchServer_new_def SearchServer_default_def)

lemma SearchServer_new_Nil: "SearchServer_new [] = SearchServer_default"
  by (simp add: SearchServer_new_def SearchServer_default_def)

lemma well_formed_default: "well_formed SearchServer_default"
  using well_formed_new [of "[]"] by (simp only: SearchServer_new_Nil)

lemma well_formed_exec_call: "well_formed s \<Longrightarrow> well_formed (exec_call c s)"
  by (cases c) (simp_all add: well_formed_AddDocument well_formed_SetStopWords)

lemma well_formed_run_from: "well_formed s \<Longrightarrow> well_formed (run s calls)"
  unfolding run_def by (induction calls arbitrary: s) (simp_all add: well_formed_exec_call)

lemma well_formed_run: "well_formed (run (SearchServer_new stop_words) calls)"
  by (simp add: well_formed_run_from well_formed_new)

lemma has_posting_stored:
  assumes "well_formed s" "has_posting s w d"
  shows "d \<in> fst ` set (documents' s)"
proof -
  from assms(2) obtain p where "map_of (word_to_document_freqs' s) w = Some p" "d \<in> fst ` set p"
    by (auto simp: has_posting_iff)
  with well_formed_posting [OF assms(1) this(1)] show ?thesis by auto
qed


section \<open>Rejected ingestion\<close>

text \<open>
  C6. \<^verbatim>\<open>AddDocument\<close> with a negative id, with an id that is already a key of the
  document store, or with a text that has a byte below 32 returns \<open>False\<close> and the state
  it was given: the stop words, the inverted index and the document store are unchanged,
  and so is the document count.
\<close>

theorem add_document_rejected:
  assumes "document_id < 0 \<or> document_id \<in> fst ` set (documents' s)
      \<or> (\<exists>c\<in>set document. (of_char c :: nat) < 32)"
  shows "AddDocument s document_id document doc_status ratings = (False, s) \<and>
    GetDocumentCount (snd (AddDocument s document_id document doc_status ratings)) =
      GetDocumentCount s"
  using assms by (auto simp: AddDocument_def map_count_pos IsValidWord_iff)

theorem add_document_rejected_witness:
  "(0 :: int) \<in> fst ` set (documents' (snd (AddDocument SearchServer_default 0 ''cat'' ACTUAL []))) \<and>
   AddDocument (snd (AddDocument SearchServer_default 0 ''cat'' ACTUAL [])) 0 ''dog'' BANNED [4]
     = (False, snd (AddDocument SearchServer_default 0 ''cat'' ACTUAL []))"
proof -
  have h: "(0 :: int) \<in> fst ` set (documents' (snd (AddDocument SearchServer_default 0 ''cat'' ACTUAL [])))"
    by (simp add: AddDocument_def SearchServer_default_def map_count_def IsValidWord_def
        is_control_def char_value_def SplitIntoWordsNoStop_def SplitIntoWords_def IsStopWord_def
        map_emplace_def)
  with add_document_rejected
    [of 0 "snd (AddDocument SearchServer_default 0 ''cat'' ACTUAL [])" "''dog''" BANNED "[4]"]
  show ?thesis by blast
qed

text \<open>
  C4, as the claim states it, fails: the text \<open>a - b\<close> has the token \<open>-\<close>, and the
  document is accepted and counted. \<^verbatim>\<open>AddDocument\<close> validates the text as a whole, not
  token by token.
\<close>

theorem add_document_dash_token_counterexample:
  "''-'' \<in> set (SplitIntoWords ''a - b'') \<and>
   fst (AddDocument SearchServer_default 1 ''a - b'' ACTUAL []) \<and>
   GetDocumentCount (snd (AddDocument SearchServer_default 1 ''a - b'' ACTUAL [])) = 1 \<and>
   GetDocumentCount SearchServer_default = 0"
  by (simp add: AddDocument_def SearchServer_default_def map_count_def IsValidWord_def
        is_control_def char_value_def SplitIntoWordsNoStop_def SplitIntoWords_def IsStopWord_def
        map_emplace_def GetDocumentCount_def add_term_freq_def map_add_assign_def Let_def)

text \<open>
  C4, amended: for every id, status and ratings list, \<^verbatim>\<open>AddDocument\<close> with the text
  that is exactly \<open>-\<close> returns \<open>False\<close> and leaves the state, hence the document count,
  unchanged.
\<close>

theorem add_document_dash_text:
  "AddDocument s document_id ''-'' doc_status ratings = (False, s) \<and>
   GetDocumentCount (snd (AddDocument s document_id ''-'' doc_status ratings)) = GetDocumentCount s"
  by (simp add: AddDocument_def IsValidWord_def)

theorem add_document_dash_text_witness:
  "AddDocument SearchServer_default 7 ''-'' ACTUAL [1, 2] = (False, SearchServer_default) \<and>
   GetDocumentCount (snd (AddDocument SearchServer_default 7 ''-'' ACTUAL [1, 2])) =
     GetDocumentCount SearchServer_default"
  by (rule add_document_dash_text)


section \<open>The average rating\<close>

lemma sint_word_of_int_32:
  assumes "- 2147483648 \<le> k" "k < 2147483648"
  shows "sint (word_of_int k :: 32 word) = k"
proof -
  have "signed_take_bit 31 k = k"
    by (rule signed_take_bit_int_eq_self) (use assms in simp_all)
  then show ?thesis
    by (simp only: sint_sbintrunc') simp
qed

lemma sint_word_of_nat_32:
  assumes "n < 2147483648"
  shows "sint (word_of_nat n :: 32 word) = int n"
proof -
  have "(word_of_nat n :: 32 word) = word_of_int (int n)" by simp
  moreover have "sint (word_of_int (int n) :: 32 word) = int n"
    by (rule sint_word_of_int_32) (use assms in simp_all)
  ultimately show ?thesis by (simp only:)
qed

lemma sdiv_bounds:
  fixes a b :: int
  assumes "- 2147483648 \<le> a" "a < 2147483648" "0 < b"
  shows "- 2147483648 \<le> a sdiv b \<and> a sdiv b < 2147483648"
proof -
  have "\<bar>a\<bar> div b \<le> \<bar>a\<bar>"
    using assms(3) by (metis div_pos_pos_trivial dual_order.irrefl dual_order.refl
    int_div_le_self zabs_def zero_less_abs_iff)
  moreover have "a sdiv b = sgn a * (\<bar>a\<bar> div b)"
    using assms by (simp add: signed_divide_int_def)
  moreover have "0 \<le> \<bar>a\<bar> div b"
    using assms by (simp add: pos_imp_zdiv_nonneg_iff)
  ultimately show ?thesis
    using assms by (cases "a < 0") (auto simp: sgn_if)
qed

lemma fold_add_word:
  "fold (\<lambda>rating rating_sum. rating_sum + rating) rs (a :: 32 word) = a + sum_list rs"
  by (induction rs arbitrary: a) (simp_all add: ac_simps)

lemma sum_list_word: "(sum_list rs :: 32 word) = word_of_int (sum_list (map sint rs))"
  by (induction rs) simp_all

lemma average_rating_value:
  assumes "length ratings < 2147483648"
    and "- 2147483648 \<le> sum_list (map sint ratings)"
    and "sum_list (map sint ratings) < 2147483648"
  shows "sint (ComputeAverageRating ratings) = integer_mean (map sint ratings)"
proof (cases "ratings = []")
  case True
  then show ?thesis by (simp add: ComputeAverageRating_def integer_mean_def)
next
  case False
  let ?t = "sum_list (map sint ratings)"
  let ?n = "int (length ratings)"
  have s: "sint (sum_list ratings) = ?t"
    unfolding sum_list_word by (rule sint_word_of_int_32 [OF assms(2,3)])
  have n: "sint (word_of_nat (length ratings) :: 32 word) = ?n"
    by (rule sint_word_of_nat_32 [OF assms(1)])
  have pos: "0 < ?n" using False by simp
  from sdiv_bounds [OF assms(2,3) pos]
  have q: "sint (word_of_int (?t sdiv ?n) :: 32 word) = ?t sdiv ?n"
    by (intro sint_word_of_int_32) simp_all
  have "ComputeAverageRating ratings = word_of_int (?t sdiv ?n)"
    using False by (simp add: ComputeAverageRating_def fold_add_word s n)
  with q False show ?thesis by (simp add: integer_mean_def)
qed

text \<open>
  C8, as the claim states it, fails: the sum of the ratings is a 32-bit \<^verbatim>\<open>int\<close>. For
  the ratings \<open>2147483647\<close> and \<open>1\<close> the sum wraps around to \<open>-2147483648\<close> and the stored
  average is \<open>-1073741824\<close>, while the mean of the list is \<open>1073741824\<close>.
\<close>

theorem average_rating_overflow_counterexample:
  "map_at (documents' (snd (AddDocument SearchServer_default 1 ''cat'' ACTUAL [2147483647, 1]))) 1 =
     Inr \<lparr>DocumentData.rating = ComputeAverageRating [2147483647, 1], status = ACTUAL\<rparr> \<and>
   sint (ComputeAverageRating [2147483647, 1]) = - 1073741824 \<and>
   integer_mean (map sint [2147483647, 1 :: 32 word]) = 1073741824"
proof -
  have "fst (AddDocument SearchServer_default 1 ''cat'' ACTUAL [2147483647, 1])"
    by (simp add: AddDocument_fst_iff SearchServer_default_def IsValidWord_def is_control_def
        char_value_def)
  from AddDocument_accepted [OF this]
  have "map_at (documents' (snd (AddDocument SearchServer_default 1 ''cat'' ACTUAL [2147483647, 1]))) 1 =
     Inr \<lparr>DocumentData.rating = ComputeAverageRating [2147483647, 1], status = ACTUAL\<rparr>"
    by (simp add: map_at_def map_of_map_store)
  moreover have "sint (ComputeAverageRating [2147483647, 1]) = - 1073741824 \<and>
      integer_mean (map sint [2147483647, 1 :: 32 word]) = 1073741824"
    by (simp add: ComputeAverageRating_def integer_mean_def signed_divide_int_def)
  ultimately show ?thesis by (rule conjI)
qed

text \<open>
  C8, amended: for every ratings list of fewer than \<open>2^31\<close> elements whose sum lies
  in the range of a 32-bit \<^verbatim>\<open>int\<close>, the average rating that a successful
  \<^verbatim>\<open>AddDocument\<close> stores is the integer mean of the list, truncated toward zero, and 0
  when the list is empty.
\<close>

theorem average_rating_truncated_mean:
  assumes "length ratings < 2147483648"
    and "- 2147483648 \<le> sum_list (map sint ratings)"
    and "sum_list (map sint ratings) < 2147483648"
    and "AddDocument s document_id document doc_status ratings = (True, s')"
  shows "\<exists>doc_data. map_of (documents' s') document_id = Some doc_data \<and>
    sint (DocumentData.rating doc_data) = integer_mean (map sint ratings)"
proof -
  from assms(4) have acc: "fst (AddDocument s document_id document doc_status ratings)"
    and s': "s' = snd (AddDocument s document_id document doc_status ratings)"
    by simp_all
  from AddDocument_accepted [OF acc]
  have "map_of (documents' s') document_id =
      Some \<lparr>DocumentData.rating = ComputeAverageRating ratings, status = doc_status\<rparr>"
    unfolding s' by (simp add: map_of_map_store)
  with average_rating_value [OF assms(1-3)] show ?thesis by simp
qed

theorem average_rating_truncated_mean_witness:
  "\<exists>doc_data. map_of (documents' (snd (AddDocument SearchServer_default 2 ''dog'' ACTUAL [- 7, 2])))
       2 = Some doc_data \<and>
     sint (DocumentData.rating doc_data) = - 2 \<and> integer_mean (map sint [- 7, 2 :: 32 word]) = - 2"
proof -
  have a: "AddDocument SearchServer_default 2 ''dog'' ACTUAL [- 7, 2] =
      (True, snd (AddDocument SearchServer_default 2 ''dog'' ACTUAL [- 7, 2]))"
    by (simp add: eval_defs)
  have m: "integer_mean (map sint [- 7, 2 :: 32 word]) = - 2"
    by (simp add: integer_mean_def signed_divide_int_def)
  from average_rating_truncated_mean [OF _ _ _ a] m show ?thesis by simp
qed


section \<open>The document at a position\<close>

lemma find_at_index_nth:
  "int k \<le> index \<Longrightarrow> index < int k + int (length docs) \<Longrightarrow>
   find_at_index docs k index = map fst docs ! (nat index - k)"
proof (induction docs arbitrary: k)
  case Nil
  then show ?case by simp
next
  case (Cons doc docs)
  show ?case
  proof (cases "int k = index")
    case True
    then show ?thesis by auto
  next
    case False
    with Cons.prems have "int (Suc k) \<le> index" "index < int (Suc k) + int (length docs)"
      by auto
    from Cons.IH [OF this] False Cons.prems show ?thesis
      by (auto simp: nth_Cons' nat_diff_distrib)
  qed
qed

text \<open>
  C9. In a well-formed state the document count is the number of stored ids, and
  \<^verbatim>\<open>GetDocumentId\<close> returns \<open>-1\<close> when the index is negative or not less than that
  count, and otherwise the id at that position of the ascending enumeration of the
  stored ids.
\<close>

theorem get_document_id_ascending:
  assumes "well_formed s"
  shows "GetDocumentCount s = int (card (fst ` set (documents' s))) \<and>
    GetDocumentId s index =
      (if index < 0 \<or> GetDocumentCount s \<le> index then - 1
       else sorted_list_of_set (fst ` set (documents' s)) ! nat index)"
proof -
  let ?keys = "map fst (documents' s)"
  from assms have sorted: "sorted_wrt (<) ?keys"
    by (simp add: well_formed_def)
  then have sd: "sorted ?keys" "distinct ?keys"
    by (simp_all add: strict_sorted_iff)
  then have "sorted_list_of_set (fst ` set (documents' s)) = ?keys"
    using sorted_list_of_set.idem_if_sorted_distinct [of ?keys] by simp
  moreover have "card (fst ` set (documents' s)) = length (documents' s)"
    using distinct_card [OF sd(2)] by simp
  ultimately show ?thesis
    using find_at_index_nth [of 0 index "documents' s"]
    by (auto simp: GetDocumentId_def GetDocumentCount_def INVALID_DOCUMENT_ID_def)
qed

theorem get_document_id_ascending_witness:
  "well_formed example_server \<and> GetDocumentCount example_server = 2 \<and>
   GetDocumentId example_server 0 = 1 \<and> GetDocumentId example_server 1 = 3 \<and>
   GetDocumentId example_server 2 = - 1"
proof -
  note wf = example_server_well_formed
  have "GetDocumentCount example_server = 2"
    using get_document_id_ascending [OF wf, of 0] by (simp add: example_server_eq)
  moreover have "GetDocumentId example_server 0 = 1"
    using get_document_id_ascending [OF wf, of 0] by (simp add: example_server_eq)
  moreover have "GetDocumentId example_server 1 = 3"
    using get_document_id_ascending [OF wf, of 1] by (simp add: example_server_eq)
  moreover have "GetDocumentId example_server 2 = - 1"
    using get_document_id_ascending [OF wf, of 2] by (simp add: example_server_eq)
  ultimately show ?thesis using wf by blast
qed


section \<open>Term frequencies\<close>

lemma map_of_sorted_less:
  fixes k :: "'k::linorder"
  assumes "sorted_wrt (<) (map fst (e # es))" "k < fst e"
  shows "map_of (e # es) k = None"
proof -
  from assms have "k \<notin> fst ` set (e # es)" by auto
  then show ?thesis by (rule map_of_eq_None_iff [THEN iffD2])
qed

lemma sum_list_map_store:
  fixes f :: "'k::linorder \<times> 'v \<Rightarrow> real"
  assumes "sorted_wrt (<) (map fst m)"
  shows "sum_list (map f (map_store k v m)) =
    sum_list (map f m) + f (k, v) - (case map_of m k of None \<Rightarrow> 0 | Some u \<Rightarrow> f (k, u))"
  using assms
proof (induction m)
  case Nil
  then show ?case by simp
next
  case (Cons e es)
  show ?case
  proof (cases "k < fst e")
    case True
    with Cons.prems have "map_of (e # es) k = None" by (rule map_of_sorted_less)
    with True show ?thesis by simp
  next
    case False
    show ?thesis
    proof (cases "k = fst e")
      case True
      then show ?thesis by (cases e) simp
    next
      case ne: False
      from Cons have "sum_list (map f (map_store k v es)) =
        sum_list (map f es) + f (k, v) - (case map_of es k of None \<Rightarrow> 0 | Some u \<Rightarrow> f (k, u))"
        by simp
      with False ne show ?thesis by (cases e) simp
    qed
  qed
qed

lemma posting_freq_map_add:
  "posting_freq (map_add_assign d x p) d' = posting_freq p d' + (if d' = d then x else 0)"
  by (simp add: posting_freq_def map_of_map_add)

lemma freq_sum_add_term_freq:
  assumes "sorted_wrt (<) (map fst freqs)"
  shows "sum_list (map (\<lambda>entry. posting_freq (snd entry) d') (add_term_freq w d x freqs)) =
    sum_list (map (\<lambda>entry. posting_freq (snd entry) d') freqs) + (if d' = d then x else 0)"
proof (cases "map_of freqs w")
  case None
  then show ?thesis
    unfolding add_term_freq_def sum_list_map_store [OF assms]
    by (simp add: posting_freq_map_add) (simp add: posting_freq_def)
next
  case (Some p)
  then show ?thesis
    unfolding add_term_freq_def sum_list_map_store [OF assms]
    by (simp add: posting_freq_map_add)
qed

lemma sorted_add_term_freq:
  "sorted_wrt (<) (map fst freqs) \<Longrightarrow> sorted_wrt (<) (map fst (add_term_freq w d x freqs))"
  by (simp add: add_term_freq_def sorted_map_store)

lemma freq_sum_fold:
  assumes "sorted_wrt (<) (map fst freqs)"
  shows "sum_list (map (\<lambda>entry. posting_freq (snd entry) d')
           (fold (\<lambda>word. add_term_freq word d x) ws freqs)) =
    sum_list (map (\<lambda>entry. posting_freq (snd entry) d') freqs) +
      (if d' = d then real (length ws) * x else 0)"
  using assms
proof (induction ws arbitrary: freqs)
  case Nil
  then show ?case by simp
next
  case (Cons w ws)
  from Cons.prems have "sorted_wrt (<) (map fst (add_term_freq w d x freqs))"
    by (rule sorted_add_term_freq)
  from Cons.IH [OF this] show ?case
    by (simp add: freq_sum_add_term_freq [OF Cons.prems] algebra_simps)
qed

lemma term_freq_sum_eq:
  "term_freq_sum s d = sum_list (map (\<lambda>entry. posting_freq (snd entry) d) (word_to_document_freqs' s))"
  by (simp add: term_freq_sum_def posting_freq_def)

lemma posted_add_term_freq:
  "posted (add_term_freq w0 d0 x freqs) w d = (posted freqs w d \<or> (w = w0 \<and> d = d0))"
proof (cases "w = w0")
  case False
  then show ?thesis by (simp add: posted_def add_term_freq_def map_of_map_store)
next
  case True
  show ?thesis
  proof (cases "map_of freqs w0")
    case None
    with True show ?thesis
      by (auto simp: posted_def add_term_freq_def map_of_map_store keys_map_add)
  next
    case (Some p)
    with True show ?thesis
      by (auto simp: posted_def add_term_freq_def map_of_map_store keys_map_add)
  qed
qed

lemma posted_fold:
  "posted (fold (\<lambda>word. add_term_freq word d0 x) ws freqs) w d =
     (posted freqs w d \<or> (w \<in> set ws \<and> d = d0))"
  by (induction ws arbitrary: freqs) (auto simp: posted_add_term_freq)

lemma has_posting_posted: "has_posting s w d = posted (word_to_document_freqs' s) w d"
  by (simp add: has_posting_iff posted_def)

lemma normalised_AddDocument:
  assumes wf: "well_formed s"
    and inv: "\<forall>d. term_freq_sum s d = (if \<exists>w. has_posting s w d then 1 else 0)"
  shows "\<forall>d. term_freq_sum (snd (AddDocument s d0 document st rs)) d =
    (if \<exists>w. has_posting (snd (AddDocument s d0 document st rs)) w d then 1 else 0)"
proof (cases "fst (AddDocument s d0 document st rs)")
  case False
  with inv show ?thesis by (simp add: AddDocument_unchanged)
next
  case True
  let ?s = "snd (AddDocument s d0 document st rs)"
  let ?ws = "SplitIntoWordsNoStop s document"
  note a = AddDocument_accepted [OF True]
  from wf have sorted: "sorted_wrt (<) (map fst (word_to_document_freqs' s))"
    by (simp add: well_formed_def)
  have sum: "term_freq_sum ?s d =
      term_freq_sum s d + (if d = d0 then real (length ?ws) * (1 / real (length ?ws)) else 0)" for d
    using a by (simp add: term_freq_sum_eq freq_sum_fold [OF sorted])
  have hp: "has_posting ?s w d = (has_posting s w d \<or> (w \<in> set ?ws \<and> d = d0))" for w d
    using a by (simp add: has_posting_posted posted_fold)
  have fresh: "\<not> has_posting s w d0" for w
    using has_posting_stored [OF wf, of w d0] a by blast
  show ?thesis
  proof
    fix d
    show "term_freq_sum ?s d = (if \<exists>w. has_posting ?s w d then 1 else 0)"
    proof (cases "d = d0")
      case True
      from fresh inv have "term_freq_sum s d0 = 0" by simp
      moreover have "(\<exists>w. has_posting ?s w d0) = (?ws \<noteq> [])"
        using fresh by (auto simp: hp intro: hd_in_set)
      ultimately show ?thesis
        unfolding True sum by (cases "?ws = []") simp_all
    next
      case False
      with inv show ?thesis by (simp add: sum hp)
    qed
  qed
qed

lemma normalised_exec_call:
  assumes "well_formed s"
    and "\<forall>d. term_freq_sum s d = (if \<exists>w. has_posting s w d then 1 else 0)"
  shows "\<forall>d. term_freq_sum (exec_call c s) d =
    (if \<exists>w. has_posting (exec_call c s) w d then 1 else 0)"
proof (cases c)
  case (CallAddDocument d0 document st rs)
  with normalised_AddDocument [OF assms] show ?thesis by simp
next
  case (CallSetStopWords str)
  with assms(2) show ?thesis
    by (simp add: SetStopWords_def term_freq_sum_def has_posting_def)
qed

lemma normalised_run:
  assumes "well_formed s"
    and "\<forall>d. term_freq_sum s d = (if \<exists>w. has_posting s w d then 1 else 0)"
  shows "\<forall>d. term_freq_sum (run s calls) d =
    (if \<exists>w. has_posting (run s calls) w d then 1 else 0)"
  using assms unfolding run_def
proof (induction calls arbitrary: s)
  case Nil
  then show ?case by simp
next
  case (Cons c calls)
  from Cons.prems have "well_formed (exec_call c s)"
    and "\<forall>d. term_freq_sum (exec_call c s) d =
      (if \<exists>w. has_posting (exec_call c s) w d then 1 else 0)"
    by (simp_all add: well_formed_exec_call normalised_exec_call)
  from Cons.IH [OF this] show ?case by simp
qed

lemma has_posting_exec_call: "has_posting s w d \<Longrightarrow> has_posting (exec_call c s) w d"
proof (cases c)
  case (CallAddDocument d0 document st rs)
  assume h: "has_posting s w d"
  show ?thesis
  proof (cases "fst (AddDocument s d0 document st rs)")
    case True
    from AddDocument_accepted [OF True] h CallAddDocument show ?thesis
      by (simp add: has_posting_posted posted_fold)
  next
    case False
    with h CallAddDocument show ?thesis by (simp add: AddDocument_unchanged)
  qed
next
  case (CallSetStopWords str)
  assume "has_posting s w d"
  with CallSetStopWords show ?thesis by (simp add: SetStopWords_def has_posting_def)
qed

lemma has_posting_run: "has_posting s w d \<Longrightarrow> has_posting (run s calls) w d"
  unfolding run_def by (induction calls arbitrary: s) (simp_all add: has_posting_exec_call)

lemma normalised_new:
  "term_freq_sum (SearchServer_new stop_words) d =
     (if \<exists>w. has_posting (SearchServer_new stop_words) w d then 1 else 0)"
  by (simp add: term_freq_sum_def has_posting_def SearchServer_new_def SearchServer_default_def)

text \<open>
  In the exact arithmetic of this model, the frequencies recorded for a document with at
  least one token sum to 1, after any further calls. The code divides and adds in
  doubles, which round: for a text of ten equal words it records ten additions of the
  double nearest to \<open>1 / 10\<close>, a value just below 1. The rounding is not modelled, so the
  lemma gives no bound on the sum that the code records.
\<close>

lemma term_freq_sum_exact:
  assumes "AddDocument (run (SearchServer_new stop_words) before) document_id document
      doc_status ratings = (True, s1)"
    and "SplitIntoWordsNoStop (run (SearchServer_new stop_words) before) document \<noteq> []"
  shows "term_freq_sum (run s1 after) document_id = 1"
proof -
  let ?s0 = "run (SearchServer_new stop_words) before"
  have wf0: "well_formed ?s0" by (rule well_formed_run)
  have inv0: "\<forall>d. term_freq_sum ?s0 d = (if \<exists>w. has_posting ?s0 w d then 1 else 0)"
    by (rule normalised_run [OF well_formed_new]) (simp add: normalised_new)
  from assms(1) have acc: "fst (AddDocument ?s0 document_id document doc_status ratings)"
    and s1: "s1 = snd (AddDocument ?s0 document_id document doc_status ratings)"
    by simp_all
  have wf1: "well_formed s1"
    unfolding s1 by (rule well_formed_AddDocument [OF wf0])
  have inv1: "\<forall>d. term_freq_sum s1 d = (if \<exists>w. has_posting s1 w d then 1 else 0)"
    unfolding s1 by (rule normalised_AddDocument [OF wf0 inv0])
  from assms(2) obtain w where w: "w \<in> set (SplitIntoWordsNoStop ?s0 document)"
    by (auto intro: hd_in_set)
  have "has_posting s1 w document_id"
    unfolding s1 using AddDocument_accepted [OF acc] w
    by (simp add: has_posting_posted posted_fold)
  then have "has_posting (run s1 after) w document_id"
    by (rule has_posting_run)
  with normalised_run [OF wf1 inv1, of after] show ?thesis
    by auto
qed


section \<open>Query parsing\<close>

lemma split_loop_chars:
  "w \<in> set (split_loop str word words) \<Longrightarrow>
   w \<in> set words \<or> (w \<noteq> [] \<and> set w \<subseteq> set word \<union> set str)"
proof (induction str arbitrary: word words)
  case Nil
  then show ?case by (auto split: if_splits)
next
  case (Cons c str)
  show ?case
  proof (cases "c = CHR '' ''")
    case True
    show ?thesis
    proof (cases "word = []")
      case True
      with \<open>c = CHR '' ''\<close> Cons.prems have "w \<in> set (split_loop str word words)" by simp
      from Cons.IH [OF this] show ?thesis by auto
    next
      case False
      with \<open>c = CHR '' ''\<close> Cons.prems have "w \<in> set (split_loop str [] (words @ [word]))" by simp
      from Cons.IH [OF this] False show ?thesis by auto
    qed
  next
    case False
    with Cons.prems have "w \<in> set (split_loop str (word @ [c]) words)" by simp
    from Cons.IH [OF this] show ?thesis by auto
  qed
qed

lemma SplitIntoWords_chars:
  "w \<in> set (SplitIntoWords str) \<Longrightarrow> w \<noteq> [] \<and> set w \<subseteq> set str"
  using split_loop_chars [of w str "[]" "[]"] by (simp add: SplitIntoWords_def)

lemma char_at_Cons_0: "char_at (c # cs) 0 = c"
  by (simp add: char_at_def)

lemma char_at_Cons_1: "char_at (c # cs) (Suc 0) = char_at cs 0"
  by (cases cs) (simp_all add: char_at_def)

lemma dash_first: "char_at w 0 = CHR ''-'' \<Longrightarrow> w = CHR ''-'' # drop 1 w"
  by (cases w) (simp_all add: char_at_def)

lemma take2_dashes: "(take 2 w = ''--'') = (char_at w 0 = CHR ''-'' \<and> char_at w 1 = CHR ''-'')"
proof (cases w)
  case Nil
  then show ?thesis by (simp add: char_at_def)
next
  case (Cons a v)
  then show ?thesis by (cases v) (auto simp: char_at_def)
qed

lemma ParseQueryWord_None_iff:
  "(ParseQueryWord s w = None) = (\<not> IsValidWord w \<or> take 2 w = ''--'')"
  by (auto simp: ParseQueryWord_def take2_dashes)

lemma parse_loop_None_iff:
  "(parse_loop s ws acc = None) = (\<exists>w\<in>set ws. ParseQueryWord s w = None)"
  by (induction ws arbitrary: acc) (auto split: option.splits)

lemma query_rejected_iff:
  "(\<not> IsValidWord raw_query \<or> ParseQuery s raw_query = None) = malformed_query raw_query"
proof
  assume "\<not> IsValidWord raw_query \<or> ParseQuery s raw_query = None"
  then show "malformed_query raw_query"
  proof
    assume "\<not> IsValidWord raw_query"
    then have "raw_query = ''-'' \<or> (\<exists>c\<in>set raw_query. (of_char c :: nat) < 32)"
      by (auto simp: IsValidWord_iff)
    then show ?thesis
    proof
      assume "raw_query = ''-''"
      then show ?thesis by (simp add: malformed_query_def SplitIntoWords_def)
    next
      assume "\<exists>c\<in>set raw_query. (of_char c :: nat) < 32"
      then show ?thesis by (simp add: malformed_query_def list_ex_iff)
    qed
  next
    assume "ParseQuery s raw_query = None"
    then obtain w where w: "w \<in> set (SplitIntoWords raw_query)"
      "\<not> IsValidWord w \<or> take 2 w = ''--''"
      by (auto simp: ParseQuery_def parse_loop_None_iff ParseQueryWord_None_iff)
    from w(2) show ?thesis
    proof
      assume "take 2 w = ''--''"
      with w(1) show ?thesis by (auto simp: malformed_query_def list_ex_iff)
    next
      assume "\<not> IsValidWord w"
      then have "w = ''-'' \<or> (\<exists>c\<in>set w. (of_char c :: nat) < 32)"
        by (auto simp: IsValidWord_iff)
      then show ?thesis
      proof
        assume "w = ''-''"
        with w(1) show ?thesis by (auto simp: malformed_query_def list_ex_iff)
      next
        assume "\<exists>c\<in>set w. (of_char c :: nat) < 32"
        with SplitIntoWords_chars [OF w(1)] show ?thesis
          by (auto simp: malformed_query_def list_ex_iff)
      qed
    qed
  qed
next
  assume "malformed_query raw_query"
  then consider w where "w \<in> set (SplitIntoWords raw_query)" "take 2 w = ''--'' \<or> w = ''-''"
    | "\<exists>c\<in>set raw_query. (of_char c :: nat) < 32"
    by (auto simp: malformed_query_def list_ex_iff)
  then show "\<not> IsValidWord raw_query \<or> ParseQuery s raw_query = None"
  proof cases
    case 1
    then have "ParseQueryWord s w = None"
      by (auto simp: ParseQueryWord_None_iff IsValidWord_def)
    with 1(1) show ?thesis
      by (auto simp: ParseQuery_def parse_loop_None_iff)
  next
    case 2
    then show ?thesis by (simp add: IsValidWord_iff)
  qed
qed

lemma parse_loop_sets:
  assumes "parse_loop s ws acc = Some q"
  shows "set (plus_words q) =
      set (plus_words acc) \<union> {w \<in> set ws. char_at w 0 \<noteq> CHR ''-'' \<and> \<not> IsStopWord s w} \<and>
    set (minus_words q) =
      set (minus_words acc) \<union>
        {drop 1 w |w. w \<in> set ws \<and> char_at w 0 = CHR ''-'' \<and> \<not> IsStopWord s (drop 1 w)}"
  using assms
proof (induction ws arbitrary: acc)
  case Nil
  then show ?case by simp
next
  case (Cons w ws)
  from Cons.prems obtain qw where qw: "ParseQueryWord s w = Some qw"
    by (auto split: option.splits)
  let ?acc = "if \<not> is_stop qw then
      (if is_minus qw then acc\<lparr>minus_words := set_insert (data qw) (minus_words acc)\<rparr>
       else acc\<lparr>plus_words := set_insert (data qw) (plus_words acc)\<rparr>)
    else acc"
  from Cons.prems qw have "parse_loop s ws ?acc = Some q" by simp
  note ih = Cons.IH [OF this]
  show ?case
  proof (cases "char_at w 0 = CHR ''-''")
    case True
    with qw have "qw = \<lparr>data = drop 1 w, is_minus = True, is_stop = IsStopWord s (drop 1 w)\<rparr>"
      by (auto simp: ParseQueryWord_def split: if_splits)
    with ih True show ?thesis
      by (auto simp: set_set_insert)
  next
    case False
    with qw have "qw = \<lparr>data = w, is_minus = False, is_stop = IsStopWord s w\<rparr>"
      by (auto simp: ParseQueryWord_def split: if_splits)
    with ih False show ?thesis
      by (auto simp: set_set_insert)
  qed
qed

lemma ParseQuery_sets:
  assumes "ParseQuery s raw_query = Some query"
  shows "set (plus_words query) =
      {w \<in> set (SplitIntoWords raw_query). char_at w 0 \<noteq> CHR ''-'' \<and> \<not> IsStopWord s w}"
    and "set (minus_words query) =
      {drop 1 w |w. w \<in> set (SplitIntoWords raw_query) \<and> char_at w 0 = CHR ''-'' \<and>
         \<not> IsStopWord s (drop 1 w)}"
  using parse_loop_sets [OF assms [unfolded ParseQuery_def]] by simp_all

lemma ParseQuery_tokens:
  assumes "ParseQuery s raw_query = Some query" "w \<in> set (SplitIntoWords raw_query)"
  shows "\<not> (char_at w 0 = CHR ''-'' \<and> char_at w 1 = CHR ''-'')"
proof -
  from assms have "ParseQueryWord s w \<noteq> None"
    using parse_loop_None_iff [of s "SplitIntoWords raw_query" "\<lparr>plus_words = [], minus_words = []\<rparr>"]
    by (auto simp: ParseQuery_def)
  then show ?thesis
    by (simp add: ParseQueryWord_None_iff take2_dashes)
qed

text \<open>
  C7, as the claim states it, fails: the query \<open>cat -cat\<close> is accepted, and \<open>cat\<close> is
  both a required and an excluded term. \<^verbatim>\<open>ParseQuery\<close> fills the two sets independently.
\<close>

theorem parse_query_disjoint_counterexample:
  "ParseQuery SearchServer_default ''cat -cat'' =
     Some \<lparr>plus_words = [''cat''], minus_words = [''cat'']\<rparr> \<and>
   \<not> disjoint_query \<lparr>plus_words = [''cat''], minus_words = [''cat'']\<rparr>"
  by (simp add: SearchServer_default_def query_defs disjoint_query_def)

text \<open>
  C7, amended: for every raw query accepted by \<^verbatim>\<open>ParseQuery\<close>, a term is both required
  and excluded exactly when it is not a stop word and the raw query has both the token
  \<open>t\<close> and the token \<open>-t\<close>; the two sets are disjoint when the query has no such term.
\<close>

theorem parse_query_common_terms:
  assumes "ParseQuery s raw_query = Some query"
  shows "set (plus_words query) \<inter> set (minus_words query) =
    {t \<in> set (SplitIntoWords raw_query).
       CHR ''-'' # t \<in> set (SplitIntoWords raw_query) \<and> \<not> IsStopWord s t}"
proof (intro set_eqI iffI)
  fix t
  assume "t \<in> set (plus_words query) \<inter> set (minus_words query)"
  then obtain w where t: "t \<in> set (SplitIntoWords raw_query)" "\<not> IsStopWord s t"
    and w: "w \<in> set (SplitIntoWords raw_query)" "char_at w 0 = CHR ''-''" "t = drop 1 w"
    unfolding ParseQuery_sets [OF assms] by auto
  from dash_first [OF w(2)] w(3) have "w = CHR ''-'' # t" by simp
  with t w(1) show "t \<in> {t \<in> set (SplitIntoWords raw_query).
       CHR ''-'' # t \<in> set (SplitIntoWords raw_query) \<and> \<not> IsStopWord s t}"
    by simp
next
  fix t
  assume "t \<in> {t \<in> set (SplitIntoWords raw_query).
       CHR ''-'' # t \<in> set (SplitIntoWords raw_query) \<and> \<not> IsStopWord s t}"
  then have t: "t \<in> set (SplitIntoWords raw_query)" "\<not> IsStopWord s t"
    and m: "CHR ''-'' # t \<in> set (SplitIntoWords raw_query)" by simp_all
  from ParseQuery_tokens [OF assms m] have "char_at t 0 \<noteq> CHR ''-''"
    by (simp add: char_at_Cons_0 char_at_Cons_1)
  with t have "t \<in> set (plus_words query)"
    unfolding ParseQuery_sets [OF assms] by simp
  moreover have "t \<in> set (minus_words query)"
    unfolding ParseQuery_sets [OF assms] using m t(2)
    by (auto simp: char_at_Cons_0 intro!: exI [of _ "CHR ''-'' # t"])
  ultimately show "t \<in> set (plus_words query) \<inter> set (minus_words query)" by simp
qed

theorem parse_query_common_terms_witness:
  "ParseQuery example_server ''cat -dog -cat i'' =
     Some \<lparr>plus_words = [''cat''], minus_words = [''cat'', ''dog'']\<rparr> \<and>
   set [''cat''] \<inter> set [''cat'', ''dog''] =
     {t \<in> set (SplitIntoWords ''cat -dog -cat i'').
        CHR ''-'' # t \<in> set (SplitIntoWords ''cat -dog -cat i'') \<and> \<not> IsStopWord example_server t}"
proof -
  have q: "ParseQuery example_server ''cat -dog -cat i'' =
     Some \<lparr>plus_words = [''cat''], minus_words = [''cat'', ''dog'']\<rparr>"
    by (simp add: example_server_eq query_defs)
  have "set [''cat''] \<inter> set [''cat'', ''dog''] =
     {t \<in> set (SplitIntoWords ''cat -dog -cat i'').
        CHR ''-'' # t \<in> set (SplitIntoWords ''cat -dog -cat i'') \<and> \<not> IsStopWord example_server t}"
    using parse_query_common_terms [OF q] by (simp only: Query.select_convs)
  with q show ?thesis by (rule conjI)
qed


section \<open>The matching documents\<close>

lemma score_postings_ok:
  assumes "\<forall>e\<in>set posting. fst e \<in> fst ` set (documents' s)"
  shows "\<exists>scored. score_postings s km idf posting rel = Inr scored \<and>
     fst ` set scored = fst ` set rel \<union> {d \<in> fst ` set posting. accepted s km d} \<and>
     (\<forall>d. (d \<in> fst ` set posting \<longrightarrow> idf = 0) \<longrightarrow> zero_or_absent rel d
        \<longrightarrow> zero_or_absent scored d)"
  using assms
proof (induction posting arbitrary: rel)
  case Nil
  then show ?case by simp
next
  case (Cons e posting)
  from Cons.prems obtain doc_data where
    at: "map_at (documents' s) (fst e) = Inr doc_data" "map_of (documents' s) (fst e) = Some doc_data"
    using map_at_Inr [of "fst e" "documents' s"] by auto
  let ?rel = "if km (fst e) (status doc_data) (DocumentData.rating doc_data)
     then map_add_assign (fst e) (snd e * idf) rel else rel"
  from Cons.prems have "\<forall>e\<in>set posting. fst e \<in> fst ` set (documents' s)" by simp
  from Cons.IH [OF this, of ?rel] obtain scored where
    sc: "score_postings s km idf posting ?rel = Inr scored"
      "fst ` set scored = fst ` set ?rel \<union> {d \<in> fst ` set posting. accepted s km d}"
      "\<forall>d. (d \<in> fst ` set posting \<longrightarrow> idf = 0) \<longrightarrow> zero_or_absent ?rel d
        \<longrightarrow> zero_or_absent scored d"
    by blast
  have acc: "accepted s km (fst e) = km (fst e) (status doc_data) (DocumentData.rating doc_data)"
    by (simp add: accepted_def at)
  have keys: "fst ` set scored =
      fst ` set rel \<union> {d \<in> fst ` set (e # posting). accepted s km d}"
    unfolding sc(2) using acc by (auto simp: keys_map_add)
  have zero: "zero_or_absent scored d"
    if "d \<in> fst ` set (e # posting) \<longrightarrow> idf = 0" "zero_or_absent rel d" for d
  proof -
    have "zero_or_absent ?rel d"
      using that by (auto simp: zero_or_absent_def map_of_map_add)
    with sc(3) that(1) show ?thesis by simp
  qed
  show ?case
    using sc(1) keys zero by (simp add: at)
qed

lemma score_plus_words_ok:
  assumes "well_formed s"
  shows "\<exists>scored. score_plus_words s km ws rel = Inr scored \<and>
     fst ` set scored = fst ` set rel \<union> {d. (\<exists>w\<in>set ws. has_posting s w d) \<and> accepted s km d} \<and>
     (\<forall>d. (\<forall>w\<in>set ws. has_posting s w d \<longrightarrow> ComputeWordInverseDocumentFreq s w = Inr 0)
        \<longrightarrow> zero_or_absent rel d \<longrightarrow> zero_or_absent scored d)"
proof (induction ws arbitrary: rel)
  case Nil
  then show ?case by simp
next
  case (Cons w ws)
  show ?case
  proof (cases "map_of (word_to_document_freqs' s) w")
    case None
    then have no: "\<And>d. \<not> has_posting s w d" and cnt: "map_count (word_to_document_freqs' s) w = 0"
      by (simp_all add: has_posting_def map_count_def)
    from Cons.IH [of rel] no cnt show ?thesis by simp
  next
    case (Some posting)
    then have cnt: "map_count (word_to_document_freqs' s) w \<noteq> 0"
      and at: "map_at (word_to_document_freqs' s) w = Inr posting"
      by (simp_all add: map_count_def map_at_def)
    obtain idf where idf: "ComputeWordInverseDocumentFreq s w = Inr idf"
      by (simp add: ComputeWordInverseDocumentFreq_def at)
    have hp: "\<And>d. has_posting s w d = (d \<in> fst ` set posting)"
      by (simp add: has_posting_iff Some)
    from score_postings_ok [OF well_formed_posting [OF assms Some], of km idf rel]
    obtain mid where
      mid: "score_postings s km idf posting rel = Inr mid"
        "fst ` set mid = fst ` set rel \<union> {d \<in> fst ` set posting. accepted s km d}"
        "\<forall>d. (d \<in> fst ` set posting \<longrightarrow> idf = 0) \<longrightarrow> zero_or_absent rel d
          \<longrightarrow> zero_or_absent mid d"
      by blast
    from Cons.IH [of mid] obtain scored where
      sc: "score_plus_words s km ws mid = Inr scored"
        "fst ` set scored =
           fst ` set mid \<union> {d. (\<exists>w\<in>set ws. has_posting s w d) \<and> accepted s km d}"
        "\<forall>d. (\<forall>w\<in>set ws. has_posting s w d \<longrightarrow> ComputeWordInverseDocumentFreq s w = Inr 0)
          \<longrightarrow> zero_or_absent mid d \<longrightarrow> zero_or_absent scored d"
      by blast
    have res: "score_plus_words s km (w # ws) rel = Inr scored"
      using cnt by (simp add: idf at mid(1) sc(1))
    have keys: "fst ` set scored =
        fst ` set rel \<union> {d. (\<exists>w\<in>set (w # ws). has_posting s w d) \<and> accepted s km d}"
      unfolding sc(2) mid(2) by (auto simp: hp)
    have zero: "zero_or_absent scored d"
      if all: "\<forall>w\<in>set (w # ws). has_posting s w d \<longrightarrow> ComputeWordInverseDocumentFreq s w = Inr 0"
        and z: "zero_or_absent rel d" for d
    proof -
      from all have "d \<in> fst ` set posting \<longrightarrow> idf = 0"
        by (simp add: hp idf)
      with mid(3) z have "zero_or_absent mid d" by blast
      with sc(3) all show ?thesis by simp
    qed
    from res keys zero show ?thesis by blast
  qed
qed

lemma fold_map_erase:
  "map_of (fold (\<lambda>entry. map_erase (fst entry)) posting m) d =
     (if d \<in> fst ` set posting then None else map_of m d)"
  by (induction posting arbitrary: m) (auto simp: map_of_map_erase)

lemma fold_map_erase_subset:
  "set (fold (\<lambda>entry. map_erase (fst entry)) posting m) \<subseteq> set m"
proof (induction posting arbitrary: m)
  case Nil
  then show ?case by simp
next
  case (Cons e posting)
  have "set (map_erase (fst e) m) \<subseteq> set m" by (auto simp: map_erase_def)
  with Cons.IH [of "map_erase (fst e) m"] show ?case by auto
qed

lemma erase_minus_words_ok:
  "\<exists>kept. erase_minus_words s ws rel = Inr kept \<and> set kept \<subseteq> set rel \<and>
     (\<forall>d. map_of kept d = (if \<exists>w\<in>set ws. has_posting s w d then None else map_of rel d))"
proof (induction ws arbitrary: rel)
  case Nil
  then show ?case by simp
next
  case (Cons w ws)
  show ?case
  proof (cases "map_of (word_to_document_freqs' s) w")
    case None
    then have no: "\<And>d. \<not> has_posting s w d" and cnt: "map_count (word_to_document_freqs' s) w = 0"
      by (simp_all add: has_posting_def map_count_def)
    from Cons.IH [of rel] no cnt show ?thesis by simp
  next
    case (Some posting)
    then have cnt: "map_count (word_to_document_freqs' s) w \<noteq> 0"
      and at: "map_at (word_to_document_freqs' s) w = Inr posting"
      by (simp_all add: map_count_def map_at_def)
    have hp: "\<And>d. has_posting s w d = (d \<in> fst ` set posting)"
      by (simp add: has_posting_iff Some)
    let ?mid = "fold (\<lambda>entry. map_erase (fst entry)) posting rel"
    from Cons.IH [of ?mid] obtain kept where
      k: "erase_minus_words s ws ?mid = Inr kept" "set kept \<subseteq> set ?mid"
        "\<forall>d. map_of kept d = (if \<exists>w\<in>set ws. has_posting s w d then None else map_of ?mid d)"
      by blast
    have "erase_minus_words s (w # ws) rel = Inr kept"
      using cnt by (simp add: at k(1))
    moreover have "set kept \<subseteq> set rel"
      using k(2) fold_map_erase_subset [of posting rel] by blast
    moreover have "\<forall>d. map_of kept d =
        (if \<exists>w\<in>set (w # ws). has_posting s w d then None else map_of rel d)"
      using k(3) by (auto simp: fold_map_erase hp)
    ultimately show ?thesis by blast
  qed
qed

lemma collect_documents_ok:
  assumes "\<forall>e\<in>set rel. fst e \<in> fst ` set (documents' s)"
  shows "collect_documents s rel = Inr (map (result_item s) rel)"
  using assms
proof (induction rel)
  case Nil
  then show ?case by simp
next
  case (Cons e rel)
  from Cons.prems obtain doc_data where
    "map_at (documents' s) (fst e) = Inr doc_data" "map_of (documents' s) (fst e) = Some doc_data"
    using map_at_Inr [of "fst e" "documents' s"] by auto
  moreover from Cons have "collect_documents s rel = Inr (map (result_item s) rel)" by simp
  ultimately show ?case by (simp add: result_item_def)
qed

lemma accepted_stored: "accepted s km d \<Longrightarrow> d \<in> fst ` set (documents' s)"
  by (auto simp: accepted_def keys_map_of split: option.splits)

lemma FindAllDocuments_ok:
  assumes "well_formed s"
  shows "\<exists>rel. FindAllDocuments s query km = Inr (map (result_item s) rel) \<and>
     fst ` set rel = {d. matches s query km d} \<and>
     (\<forall>d. (\<forall>w\<in>set (plus_words query).
              has_posting s w d \<longrightarrow> ComputeWordInverseDocumentFreq s w = Inr 0)
        \<longrightarrow> matches s query km d \<longrightarrow> (d, 0) \<in> set rel)"
proof -
  from score_plus_words_ok [OF assms, of km "plus_words query" "[]"] obtain scored where
    sc: "score_plus_words s km (plus_words query) [] = Inr scored"
      "fst ` set scored = {d. (\<exists>w\<in>set (plus_words query). has_posting s w d) \<and> accepted s km d}"
      "\<forall>d. (\<forall>w\<in>set (plus_words query).
              has_posting s w d \<longrightarrow> ComputeWordInverseDocumentFreq s w = Inr 0)
        \<longrightarrow> zero_or_absent scored d"
    by (auto simp: zero_or_absent_def)
  from erase_minus_words_ok [of s "minus_words query" scored] obtain kept where
    k: "erase_minus_words s (minus_words query) scored = Inr kept" "set kept \<subseteq> set scored"
      "\<forall>d. map_of kept d =
        (if \<exists>w\<in>set (minus_words query). has_posting s w d then None else map_of scored d)"
    by blast
  have keys: "fst ` set kept = {d. matches s query km d}"
    unfolding keys_map_of [of kept] using sc(2) k(3)
    by (auto simp: matches_def list_ex_iff keys_map_of)
  have stored: "\<forall>e\<in>set kept. fst e \<in> fst ` set (documents' s)"
  proof
    fix e assume "e \<in> set kept"
    then have "fst e \<in> fst ` set kept" by simp
    with keys have "matches s query km (fst e)" by simp
    then show "fst e \<in> fst ` set (documents' s)"
      using accepted_stored [of s km "fst e"] by (simp add: matches_def)
  qed
  have res: "FindAllDocuments s query km = Inr (map (result_item s) kept)"
    by (simp add: FindAllDocuments_def sc(1) k(1) collect_documents_ok [OF stored])
  have zero: "(d, 0) \<in> set kept"
    if all: "\<forall>w\<in>set (plus_words query).
        has_posting s w d \<longrightarrow> ComputeWordInverseDocumentFreq s w = Inr 0"
      and m: "matches s query km d" for d
  proof -
    from m keys have "map_of kept d \<noteq> None" by (auto simp: keys_map_of)
    with k(3) have eq: "map_of kept d = map_of scored d" by (auto split: if_splits)
    from all sc(3) have "zero_or_absent scored d" by blast
    with eq \<open>map_of kept d \<noteq> None\<close> have "map_of kept d = Some 0"
      by (auto simp: zero_or_absent_def)
    then show ?thesis by (rule map_of_SomeD)
  qed
  from res keys zero show ?thesis by blast
qed


section \<open>Sorting\<close>

lemma set_sort_insert: "set (sort_insert cmp x ys) = insert x (set ys)"
  by (induction ys) auto

lemma length_sort_insert: "length (sort_insert cmp x ys) = Suc (length ys)"
  by (induction ys) auto

lemma set_fold_sort_insert: "set (fold (sort_insert cmp) xs acc) = set xs \<union> set acc"
  by (induction xs arbitrary: acc) (auto simp: set_sort_insert)

lemma length_fold_sort_insert: "length (fold (sort_insert cmp) xs acc) = length xs + length acc"
  by (induction xs arbitrary: acc) (auto simp: length_sort_insert)

lemma set_std_sort: "set (std_sort cmp xs) = set xs"
  by (simp add: std_sort_def set_fold_sort_insert)

lemma length_std_sort: "length (std_sort cmp xs) = length xs"
  by (simp add: std_sort_def length_fold_sort_insert)

lemma take_std_sort_empty: "take n (std_sort cmp []) = []"
  by (simp add: std_sort_def)

lemma sorted_sort_insert:
  assumes trans: "\<And>a b c. a \<in> A \<Longrightarrow> b \<in> A \<Longrightarrow> c \<in> A \<Longrightarrow> cmp a b \<Longrightarrow> cmp b c \<Longrightarrow> cmp a c"
    and asym: "\<And>a b. cmp a b \<Longrightarrow> \<not> cmp b a"
    and "x \<in> A" "set ys \<subseteq> A" "sorted_wrt (\<lambda>a b. \<not> cmp b a) ys"
  shows "sorted_wrt (\<lambda>a b. \<not> cmp b a) (sort_insert cmp x ys)"
  using assms(3-)
proof (induction ys)
  case Nil
  then show ?case by simp
next
  case (Cons y ys)
  show ?case
  proof (cases "cmp x y")
    case True
    have "\<not> cmp z x" if "z \<in> set (y # ys)" for z
    proof
      assume zx: "cmp z x"
      from that Cons.prems(2) have zA: "z \<in> A" and yA: "y \<in> A" by auto
      from trans [OF zA \<open>x \<in> A\<close> yA zx True] have zy: "cmp z y" .
      from that have "z = y \<or> z \<in> set ys" by simp
      then show False
      proof
        assume "z = y" with zy asym show False by blast
      next
        assume "z \<in> set ys" with Cons.prems(3) zy show False by auto
      qed
    qed
    with True Cons.prems(3) show ?thesis by auto
  next
    case False
    from Cons have "sorted_wrt (\<lambda>a b. \<not> cmp b a) (sort_insert cmp x ys)" by simp
    with False Cons.prems(3) show ?thesis by (auto simp: set_sort_insert)
  qed
qed

lemma sorted_fold_sort_insert:
  assumes trans: "\<And>a b c. a \<in> A \<Longrightarrow> b \<in> A \<Longrightarrow> c \<in> A \<Longrightarrow> cmp a b \<Longrightarrow> cmp b c \<Longrightarrow> cmp a c"
    and asym: "\<And>a b. cmp a b \<Longrightarrow> \<not> cmp b a"
    and "set xs \<subseteq> A" "set acc \<subseteq> A" "sorted_wrt (\<lambda>a b. \<not> cmp b a) acc"
  shows "sorted_wrt (\<lambda>a b. \<not> cmp b a) (fold (sort_insert cmp) xs acc)"
  using assms(3-)
proof (induction xs arbitrary: acc)
  case Nil
  then show ?case by simp
next
  case (Cons x xs)
  have "sorted_wrt (\<lambda>a b. \<not> cmp b a) (sort_insert cmp x acc)"
  proof (rule sorted_sort_insert [of A])
    show "\<And>a b c. a \<in> A \<Longrightarrow> b \<in> A \<Longrightarrow> c \<in> A \<Longrightarrow> cmp a b \<Longrightarrow> cmp b c \<Longrightarrow> cmp a c"
      by (rule trans)
    show "\<And>a b. cmp a b \<Longrightarrow> \<not> cmp b a"
      by (rule asym)
  qed (use Cons.prems in auto)
  moreover from Cons.prems have "set (sort_insert cmp x acc) \<subseteq> A"
    by (simp add: set_sort_insert)
  ultimately show ?case using Cons.prems(1) by (simp add: Cons.IH)
qed

lemma near_scores_sym: "near_scores a b = near_scores b a"
  by (simp add: near_scores_def abs_minus_commute)

lemma near_scores_DELTA: "(\<bar>relevance a - relevance b\<bar> < DELTA) = near_scores a b"
  by (simp add: near_scores_def DELTA_def)

lemma far_scores: "\<not> near_scores a b \<Longrightarrow> relevance a \<noteq> relevance b"
  by (auto simp: near_scores_def)

lemma ranked_before_iff: "ranked_before a b = (\<not> relevance_then_rating b a)"
  using far_scores [of a b]
  by (auto simp: ranked_before_def relevance_then_rating_def near_scores_DELTA
      near_scores_sym [of b a])

lemma relevance_then_rating_asym:
  "relevance_then_rating a b \<Longrightarrow> \<not> relevance_then_rating b a"
  by (auto simp: relevance_then_rating_def split: if_splits)

lemma relevance_then_rating_trans:
  assumes near: "near_scores a b \<Longrightarrow> near_scores b c \<Longrightarrow> near_scores a c"
    "near_scores b a \<Longrightarrow> near_scores a c \<Longrightarrow> near_scores b c"
    "near_scores a c \<Longrightarrow> near_scores c b \<Longrightarrow> near_scores a b"
    and ab: "relevance_then_rating a b" and bc: "relevance_then_rating b c"
  shows "relevance_then_rating a c"
proof -
  note sym = near_scores_sym
  note d = near_scores_DELTA
  have gap: "\<And>x y. near_scores x y = (\<bar>relevance x - relevance y\<bar> < 1 / 1000000)"
    by (simp only: near_scores_def)
  show ?thesis
  proof (cases "near_scores a b")
    case nab: True
    with ab have rab: "sint (Document.rating b) < sint (Document.rating a)"
      unfolding relevance_then_rating_def d by simp
    show ?thesis
    proof (cases "near_scores b c")
      case True
      with nab near(1) have "near_scores a c" by simp
      moreover from True bc have "sint (Document.rating c) < sint (Document.rating b)"
        unfolding relevance_then_rating_def d by simp
      ultimately show ?thesis
        using rab unfolding relevance_then_rating_def d by simp
    next
      case False
      have "\<not> near_scores a c"
        using near(2) nab False sym by blast
      moreover from False bc have "relevance c < relevance b"
        unfolding relevance_then_rating_def d by simp
      with nab False have "relevance c < relevance a"
        unfolding gap by linarith
      ultimately show ?thesis unfolding relevance_then_rating_def d by simp
    qed
  next
    case nab: False
    with ab have rab: "relevance b < relevance a"
      unfolding relevance_then_rating_def d by simp
    show ?thesis
    proof (cases "near_scores b c")
      case True
      have "\<not> near_scores a c"
        using near(3) nab True sym by blast
      moreover from nab True rab have "relevance c < relevance a"
        unfolding gap by linarith
      ultimately show ?thesis unfolding relevance_then_rating_def d by simp
    next
      case False
      with bc have "relevance c < relevance b"
        unfolding relevance_then_rating_def d by simp
      with nab False rab have "relevance c < relevance a \<and> \<not> near_scores a c"
        unfolding gap by linarith
      then show ?thesis unfolding relevance_then_rating_def d by simp
    qed
  qed
qed

lemma ranked_std_sort:
  assumes "\<forall>a\<in>set xs. \<forall>b\<in>set xs. \<forall>c\<in>set xs. near_scores a b \<longrightarrow> near_scores b c \<longrightarrow> near_scores a c"
  shows "ranked (std_sort relevance_then_rating xs)"
proof -
  have "sorted_wrt (\<lambda>a b. \<not> relevance_then_rating b a) (fold (sort_insert relevance_then_rating) xs [])"
  proof (rule sorted_fold_sort_insert [of "set xs"])
    fix a b c
    assume mem: "a \<in> set xs" "b \<in> set xs" "c \<in> set xs"
      and ab: "relevance_then_rating a b" and bc: "relevance_then_rating b c"
    show "relevance_then_rating a c"
    proof (rule relevance_then_rating_trans [of a b c])
      show "near_scores a b \<Longrightarrow> near_scores b c \<Longrightarrow> near_scores a c"
        using assms mem by blast
      show "near_scores b a \<Longrightarrow> near_scores a c \<Longrightarrow> near_scores b c"
        using assms mem by blast
      show "near_scores a c \<Longrightarrow> near_scores c b \<Longrightarrow> near_scores a b"
        using assms mem by blast
    qed (fact ab bc)+
  qed (auto dest: relevance_then_rating_asym)
  then show ?thesis
    by (simp add: ranked_def std_sort_def ranked_before_iff [abs_def])
qed


section \<open>Invalid queries\<close>

text \<open>
  C5. For every state, a malformed raw query makes \<^verbatim>\<open>FindTopDocuments\<close> and
  \<^verbatim>\<open>MatchDocument\<close> return the absent value. For every well-formed state and every other
  raw query, \<^verbatim>\<open>FindTopDocuments\<close> returns a present list, and the list is empty when no
  document matches the query.
\<close>

theorem query_validity:
  "(malformed_query raw_query \<longrightarrow>
      FindTopDocuments s raw_query document_predicate = Inr None \<and>
      MatchDocument s raw_query document_id = Inr None) \<and>
   (\<not> malformed_query raw_query \<longrightarrow> well_formed s \<longrightarrow>
      (\<exists>result. FindTopDocuments s raw_query document_predicate = Inr (Some result) \<and>
         ((\<forall>d. \<not> matches s (the (ParseQuery s raw_query)) document_predicate d)
            \<longrightarrow> result = [])))"
proof (intro conjI impI)
  assume "malformed_query raw_query"
  then have "\<not> IsValidWord raw_query \<or> ParseQuery s raw_query = None"
    by (rule iffD2 [OF query_rejected_iff])
  then show "FindTopDocuments s raw_query document_predicate = Inr None"
    and "MatchDocument s raw_query document_id = Inr None"
    by (auto simp: FindTopDocuments_def MatchDocument_def)
next
  assume "\<not> malformed_query raw_query" and wf: "well_formed s"
  then have v: "IsValidWord raw_query" "ParseQuery s raw_query \<noteq> None"
    using query_rejected_iff [of raw_query s] by auto
  then obtain query where q: "ParseQuery s raw_query = Some query" by auto
  from FindAllDocuments_ok [OF wf, of query document_predicate] obtain rel where
    rel: "FindAllDocuments s query document_predicate = Inr (map (result_item s) rel)"
      "fst ` set rel = {d. matches s query document_predicate d}"
    by blast
  let ?result = "take MAX_RESULT_DOCUMENT_COUNT
    (std_sort relevance_then_rating (map (result_item s) rel))"
  have "FindTopDocuments s raw_query document_predicate = Inr (Some ?result)"
    by (simp add: FindTopDocuments_def v(1) q rel(1))
  moreover have "?result = []" if "\<forall>d. \<not> matches s (the (ParseQuery s raw_query)) document_predicate d"
  proof -
    from that rel(2) q have "rel = []" by auto
    then show ?thesis by (simp add: take_std_sort_empty)
  qed
  ultimately show "\<exists>result. FindTopDocuments s raw_query document_predicate = Inr (Some result) \<and>
         ((\<forall>d. \<not> matches s (the (ParseQuery s raw_query)) document_predicate d)
            \<longrightarrow> result = [])"
    by blast
qed

theorem query_validity_witness:
  "malformed_query ''--fluffy'' \<and>
   FindTopDocuments example_server ''--fluffy'' accept_all = Inr None \<and>
   MatchDocument example_server ''--fluffy'' 1 = Inr None \<and>
   \<not> malformed_query ''bird'' \<and>
   FindTopDocuments example_server ''bird'' accept_all = Inr (Some [])"
proof -
  have m: "malformed_query ''--fluffy''"
    by (simp add: malformed_query_def SplitIntoWords_def)
  have v: "\<not> malformed_query ''bird''"
    by (simp add: malformed_query_def SplitIntoWords_def)
  have q: "ParseQuery example_server ''bird'' = Some \<lparr>plus_words = [''bird''], minus_words = []\<rparr>"
    by (simp add: example_server_eq query_defs)
  have none: "\<forall>d. \<not> matches example_server (the (ParseQuery example_server ''bird'')) accept_all d"
    unfolding q option.sel by (simp add: matches_def has_posting_def example_server_eq)
  from query_validity [of "''--fluffy''" example_server accept_all 1] m
  have a: "FindTopDocuments example_server ''--fluffy'' accept_all = Inr None"
    "MatchDocument example_server ''--fluffy'' 1 = Inr None"
    by blast+
  from query_validity [of "''bird''" example_server accept_all 1] v example_server_well_formed none
  have "FindTopDocuments example_server ''bird'' accept_all = Inr (Some [])"
    by blast
  with m v a show ?thesis by blast
qed


section \<open>Excluded terms\<close>

lemma example_query_fluffy_no_cat:
  "IsValidWord ''fluffy -cat'' \<and>
   ParseQuery example_server ''fluffy -cat'' =
     Some \<lparr>plus_words = [''fluffy''], minus_words = [''cat'']\<rparr>"
  by (simp add: example_server_eq query_defs)

text \<open>
  C3. In a well-formed state, a document with a posting under an excluded term of a
  valid query is not in the list that \<^verbatim>\<open>FindTopDocuments\<close> returns, whatever the
  predicate and whatever required terms the document has, and \<^verbatim>\<open>MatchDocument\<close> returns
  for it the empty list of matched words, with its status.
\<close>

theorem excluded_documents:
  assumes "well_formed s" "IsValidWord raw_query" "ParseQuery s raw_query = Some query"
    and "word \<in> set (minus_words query)" "has_posting s word document_id"
  shows "(\<exists>result. FindTopDocuments s raw_query document_predicate = Inr (Some result) \<and>
            document_id \<notin> id' ` set result) \<and>
         (\<exists>doc_data. map_of (documents' s) document_id = Some doc_data \<and>
            MatchDocument s raw_query document_id = Inr (Some ([], status doc_data)))"
proof
  from FindAllDocuments_ok [OF assms(1), of query document_predicate] obtain rel where
    rel: "FindAllDocuments s query document_predicate = Inr (map (result_item s) rel)"
      "fst ` set rel = {d. matches s query document_predicate d}"
    by blast
  let ?result = "take MAX_RESULT_DOCUMENT_COUNT
    (std_sort relevance_then_rating (map (result_item s) rel))"
  have "FindTopDocuments s raw_query document_predicate = Inr (Some ?result)"
    by (simp add: FindTopDocuments_def assms(2,3) rel(1))
  moreover have "document_id \<notin> id' ` set ?result"
  proof
    assume "document_id \<in> id' ` set ?result"
    then obtain item where "item \<in> set ?result" "id' item = document_id" by auto
    from in_set_takeD [OF this(1)] have "item \<in> set (map (result_item s) rel)"
      by (simp only: set_std_sort)
    with \<open>id' item = document_id\<close> have "document_id \<in> fst ` set rel"
      by (force simp: result_item_def)
    with rel(2) have "matches s query document_predicate document_id" by simp
    with assms(4,5) show False by (auto simp: matches_def list_ex_iff)
  qed
  ultimately show "\<exists>result. FindTopDocuments s raw_query document_predicate = Inr (Some result) \<and>
            document_id \<notin> id' ` set result" by blast
next
  from assms(5) obtain posting where
    p: "map_of (word_to_document_freqs' s) word = Some posting" "document_id \<in> fst ` set posting"
    by (auto simp: has_posting_iff)
  with well_formed_posting [OF assms(1) p(1)] have "document_id \<in> fst ` set (documents' s)"
    by auto
  then obtain doc_data where d: "map_at (documents' s) document_id = Inr doc_data"
    "map_of (documents' s) document_id = Some doc_data"
    using map_at_Inr [of document_id "documents' s"] by auto
  have "list_ex (\<lambda>word. has_posting s word document_id) (minus_words query)"
    using assms(4,5) by (auto simp: list_ex_iff)
  then have "MatchDocument s raw_query document_id = Inr (Some ([], status doc_data))"
    by (simp add: MatchDocument_def assms(2,3) d(1))
  with d(2) show "\<exists>doc_data. map_of (documents' s) document_id = Some doc_data \<and>
            MatchDocument s raw_query document_id = Inr (Some ([], status doc_data))" by blast
qed

theorem excluded_documents_witness:
  "has_posting example_server ''cat'' 1 \<and> has_posting example_server ''fluffy'' 1 \<and>
   (\<exists>result. FindTopDocuments example_server ''fluffy -cat'' accept_all = Inr (Some result) \<and>
      1 \<notin> id' ` set result) \<and>
   MatchDocument example_server ''fluffy -cat'' 1 = Inr (Some ([], ACTUAL))"
proof -
  have h: "has_posting example_server ''cat'' 1" "has_posting example_server ''fluffy'' 1"
    by (simp_all add: has_posting_def example_server_eq map_count_def)
  have d: "map_of (documents' example_server) 1 = Some \<lparr>DocumentData.rating = 5, status = ACTUAL\<rparr>"
    by (simp add: example_server_eq)
  from excluded_documents [OF example_server_well_formed
      example_query_fluffy_no_cat [THEN conjunct1] example_query_fluffy_no_cat [THEN conjunct2],
      of "''cat''" 1 accept_all] h(1) d
  have "(\<exists>result. FindTopDocuments example_server ''fluffy -cat'' accept_all = Inr (Some result) \<and>
      1 \<notin> id' ` set result) \<and>
    MatchDocument example_server ''fluffy -cat'' 1 = Inr (Some ([], ACTUAL))"
    by auto
  with h show ?thesis by blast
qed


section \<open>Ranking\<close>

lemma ln2_lower: "1 / 2 \<le> ln (2 :: real)"
  by (metis le_numeral_extra(1) ln_add1_ge one_add_one)

lemma ln2_upper: "ln (2 :: real) < 1"
  by (rule ln_2_less_1)

lemma split_loop_word:
  assumes "CHR '' '' \<notin> set w" "cur @ w \<noteq> []"
  shows "split_loop (w @ CHR '' '' # rest) cur words = split_loop rest [] (words @ [cur @ w])"
  using assms
proof (induction w arbitrary: cur)
  case Nil
  then show ?case by simp
next
  case (Cons c w)
  from Cons.prems have "c \<noteq> CHR '' ''" "CHR '' '' \<notin> set w" "(cur @ [c]) @ w \<noteq> []" by auto
  with Cons.IH [of "cur @ [c]"] show ?case by simp
qed

lemma split_loop_many_words:
  assumes "CHR '' '' \<notin> set w" "w \<noteq> []"
  shows "split_loop (many_words n w @ rest) [] words = split_loop rest [] (words @ replicate n w)"
proof (induction n arbitrary: words)
  case 0
  then show ?case by (simp add: many_words_def)
next
  case (Suc n)
  have "split_loop (many_words (Suc n) w @ rest) [] words =
      split_loop (w @ CHR '' '' # (many_words n w @ rest)) [] words"
    by (simp add: many_words_def)
  also have "\<dots> = split_loop (many_words n w @ rest) [] (words @ [w])"
    using split_loop_word [OF assms(1), of "[]"] assms(2) by simp
  also have "\<dots> = split_loop rest [] ((words @ [w]) @ replicate n w)"
    by (rule Suc.IH)
  also have "(words @ [w]) @ replicate n w = words @ replicate (Suc n) w"
    by simp
  finally show ?case .
qed

lemma ring_words:
  "SplitIntoWords (ring_document k) = replicate k ''w'' @ replicate (1000000 - k) ''x''"
proof -
  have "split_loop (many_words k ''w'' @ many_words (1000000 - k) ''x'') [] [] =
      split_loop (many_words (1000000 - k) ''x'') [] ([] @ replicate k ''w'')"
    by (rule split_loop_many_words) simp_all
  also have "\<dots> = split_loop (many_words (1000000 - k) ''x'' @ []) [] (replicate k ''w'')"
    by simp
  also have "\<dots> = split_loop [] [] (replicate k ''w'' @ replicate (1000000 - k) ''x'')"
    by (rule split_loop_many_words) simp_all
  finally show ?thesis by (simp add: SplitIntoWords_def ring_document_def)
qed

lemma count_list_replicate: "count_list (replicate n x) y = (if x = y then n else 0)"
  by (induction n) auto

lemma ring_count: "count_list (SplitIntoWords (ring_document k)) ''w'' = k"
  by (simp add: ring_words count_list_replicate)

lemma ring_length: "k \<le> 1000000 \<Longrightarrow> length (SplitIntoWords (ring_document k)) = 1000000"
  by (simp add: ring_words)

lemma ring_has_w: "0 < k \<Longrightarrow> ''w'' \<in> set (SplitIntoWords (ring_document k))"
  by (simp add: ring_words)

lemma set_many_words: "set (many_words n w) \<subseteq> set w \<union> {CHR '' ''}"
  by (induction n) (auto simp: many_words_def)

lemma length_many_words: "length (many_words n w) = n * Suc (length w)"
  by (induction n) (simp_all add: many_words_def)

lemma ring_document_valid: "IsValidWord (ring_document k)"
proof -
  have "length (ring_document k) = 2 * k + 2 * (1000000 - k)"
    by (simp add: ring_document_def length_many_words)
  then have "length (ring_document k) \<noteq> length ''-''"
    by (simp only: list.size)
  then have ne: "ring_document k \<noteq> ''-''" by auto
  have "set (ring_document k) \<subseteq> {CHR ''w'', CHR ''x'', CHR '' ''}"
    using set_many_words [of k "''w''"] set_many_words [of "1000000 - k" "''x''"]
    by (auto simp: ring_document_def)
  then have "\<forall>c\<in>set (ring_document k). \<not> (of_char c :: nat) < 32"
    by auto
  with ne show ?thesis by (simp add: IsValidWord_iff)
qed

lemma fold_add_term_freq_lookup:
  "map_of (fold (\<lambda>word. add_term_freq word d x) ws freqs) w =
     (if w \<in> set ws then
        Some (map_store d
          (posting_freq (case map_of freqs w of None \<Rightarrow> [] | Some p \<Rightarrow> p) d +
             real (count_list ws w) * x)
          (case map_of freqs w of None \<Rightarrow> [] | Some p \<Rightarrow> p))
      else map_of freqs w)"
proof (induction ws arbitrary: freqs)
  case Nil
  then show ?case by simp
next
  case (Cons w1 ws)
  let ?p0 = "case map_of freqs w of None \<Rightarrow> [] | Some p \<Rightarrow> p"
  let ?freqs = "add_term_freq w1 d x freqs"
  show ?case
  proof (cases "w1 = w")
    case False
    then have "map_of ?freqs w = map_of freqs w"
      by (simp add: add_term_freq_def map_of_map_store)
    with Cons.IH [of ?freqs] False show ?thesis by simp
  next
    case True
    let ?f1 = "add_term_freq w d x freqs"
    let ?p1 = "map_store d (posting_freq ?p0 d + x) ?p0"
    have l: "map_of ?f1 w = Some ?p1"
      by (simp add: add_term_freq_def map_of_map_store map_add_assign_def posting_freq_def)
    have pf: "posting_freq ?p1 d = posting_freq ?p0 d + x"
      by (simp add: posting_freq_def map_of_map_store)
    have ih: "map_of (fold (\<lambda>word. add_term_freq word d x) ws ?f1) w =
        (if w \<in> set ws then
           Some (map_store d (posting_freq ?p0 d + x + real (count_list ws w) * x) ?p0)
         else Some ?p1)"
      unfolding Cons.IH [of ?f1] l option.case pf map_store_twice ..
    show ?thesis
      unfolding True by (simp add: ih algebra_simps)
  qed
qed

lemma AddDocument_lookup:
  assumes "0 \<le> d" "d \<notin> fst ` set (documents' s)" "IsValidWord document" "stop_words' s = []"
  shows "documents' (snd (AddDocument s d document st rs)) =
      map_store d \<lparr>DocumentData.rating = ComputeAverageRating rs, status = st\<rparr> (documents' s)"
    and "stop_words' (snd (AddDocument s d document st rs)) = []"
    and "map_of (word_to_document_freqs' (snd (AddDocument s d document st rs))) w =
      (if w \<in> set (SplitIntoWords document) then
         Some (map_store d
           (posting_freq (case map_of (word_to_document_freqs' s) w of None \<Rightarrow> [] | Some p \<Rightarrow> p) d +
              real (count_list (SplitIntoWords document) w) *
                (1 / real (length (SplitIntoWords document))))
           (case map_of (word_to_document_freqs' s) w of None \<Rightarrow> [] | Some p \<Rightarrow> p))
       else map_of (word_to_document_freqs' s) w)"
proof -
  from assms(1-3) have acc: "fst (AddDocument s d document st rs)"
    by (simp add: AddDocument_fst_iff)
  have ws: "SplitIntoWordsNoStop s document = SplitIntoWords document"
    by (simp add: SplitIntoWordsNoStop_def IsStopWord_def assms(4))
  note a = AddDocument_accepted [OF acc]
  from a show "documents' (snd (AddDocument s d document st rs)) =
      map_store d \<lparr>DocumentData.rating = ComputeAverageRating rs, status = st\<rparr> (documents' s)"
    by simp
  from a assms(4) show "stop_words' (snd (AddDocument s d document st rs)) = []"
    by simp
  from a show "map_of (word_to_document_freqs' (snd (AddDocument s d document st rs))) w =
      (if w \<in> set (SplitIntoWords document) then
         Some (map_store d
           (posting_freq (case map_of (word_to_document_freqs' s) w of None \<Rightarrow> [] | Some p \<Rightarrow> p) d +
              real (count_list (SplitIntoWords document) w) *
                (1 / real (length (SplitIntoWords document))))
           (case map_of (word_to_document_freqs' s) w of None \<Rightarrow> [] | Some p \<Rightarrow> p))
       else map_of (word_to_document_freqs' s) w)"
    by (simp only: ws fold_add_term_freq_lookup)
qed

lemma valid_x: "IsValidWord ''x''" and split_x: "SplitIntoWords ''x'' = [''x'']"
  by (simp_all add: IsValidWord_def is_control_def char_value_def SplitIntoWords_def)

lemma ring_server_state:
  "stop_words' ring_server = [] \<and>
   documents' ring_server =
     [(1, \<lparr>DocumentData.rating = 3, status = ACTUAL\<rparr>),
      (2, \<lparr>DocumentData.rating = 2, status = ACTUAL\<rparr>),
      (3, \<lparr>DocumentData.rating = 1, status = ACTUAL\<rparr>),
      (4, \<lparr>DocumentData.rating = 0, status = ACTUAL\<rparr>),
      (5, \<lparr>DocumentData.rating = 0, status = ACTUAL\<rparr>),
      (6, \<lparr>DocumentData.rating = 0, status = ACTUAL\<rparr>)] \<and>
   map_of (word_to_document_freqs' ring_server) ''w'' =
     Some [(1, 1 / 1000000), (2, 2 / 1000000), (3, 3 / 1000000)]"
proof -
  define s0 where "s0 = SearchServer_default"
  define s1 where "s1 = snd (AddDocument s0 1 (ring_document 1) ACTUAL [3])"
  define s2 where "s2 = snd (AddDocument s1 2 (ring_document 2) ACTUAL [2])"
  define s3 where "s3 = snd (AddDocument s2 3 (ring_document 3) ACTUAL [1])"
  define s4 where "s4 = snd (AddDocument s3 4 ''x'' ACTUAL [])"
  define s5 where "s5 = snd (AddDocument s4 5 ''x'' ACTUAL [])"
  define s6 where "s6 = snd (AddDocument s5 6 ''x'' ACTUAL [])"
  have r: "ring_server = s6"
    by (simp add: ring_server_def run_def s0_def s1_def s2_def s3_def s4_def s5_def s6_def)
  have i0: "stop_words' s0 = []" "documents' s0 = []" "map_of (word_to_document_freqs' s0) ''w'' = None"
    by (simp_all add: s0_def SearchServer_default_def)
  have avg: "ComputeAverageRating [3] = 3" "ComputeAverageRating [2] = 2"
    "ComputeAverageRating [1] = 1" "ComputeAverageRating [] = 0"
    by (simp_all add: ComputeAverageRating_def signed_divide_int_def)
  have i1: "stop_words' s1 = []"
    "documents' s1 = [(1, \<lparr>DocumentData.rating = 3, status = ACTUAL\<rparr>)]"
    "map_of (word_to_document_freqs' s1) ''w'' = Some [(1, 1 / 1000000)]"
    unfolding s1_def
    by (simp_all add: AddDocument_lookup i0 ring_document_valid ring_count ring_length ring_has_w
        avg posting_freq_def)
  have i2: "stop_words' s2 = []"
    "documents' s2 = [(1, \<lparr>DocumentData.rating = 3, status = ACTUAL\<rparr>),
      (2, \<lparr>DocumentData.rating = 2, status = ACTUAL\<rparr>)]"
    "map_of (word_to_document_freqs' s2) ''w'' = Some [(1, 1 / 1000000), (2, 2 / 1000000)]"
    unfolding s2_def
    by (simp_all add: AddDocument_lookup i1 ring_document_valid ring_count ring_length ring_has_w
        avg posting_freq_def)
  have i3: "stop_words' s3 = []"
    "documents' s3 = [(1, \<lparr>DocumentData.rating = 3, status = ACTUAL\<rparr>),
      (2, \<lparr>DocumentData.rating = 2, status = ACTUAL\<rparr>),
      (3, \<lparr>DocumentData.rating = 1, status = ACTUAL\<rparr>)]"
    "map_of (word_to_document_freqs' s3) ''w'' =
      Some [(1, 1 / 1000000), (2, 2 / 1000000), (3, 3 / 1000000)]"
    unfolding s3_def
    by (simp_all add: AddDocument_lookup i2 ring_document_valid ring_count ring_length ring_has_w
        avg posting_freq_def)
  have i4: "stop_words' s4 = []"
    "documents' s4 = [(1, \<lparr>DocumentData.rating = 3, status = ACTUAL\<rparr>),
      (2, \<lparr>DocumentData.rating = 2, status = ACTUAL\<rparr>),
      (3, \<lparr>DocumentData.rating = 1, status = ACTUAL\<rparr>),
      (4, \<lparr>DocumentData.rating = 0, status = ACTUAL\<rparr>)]"
    "map_of (word_to_document_freqs' s4) ''w'' =
      Some [(1, 1 / 1000000), (2, 2 / 1000000), (3, 3 / 1000000)]"
    unfolding s4_def
    by (simp_all add: AddDocument_lookup i3 valid_x split_x avg)
  have i5: "stop_words' s5 = []"
    "documents' s5 = [(1, \<lparr>DocumentData.rating = 3, status = ACTUAL\<rparr>),
      (2, \<lparr>DocumentData.rating = 2, status = ACTUAL\<rparr>),
      (3, \<lparr>DocumentData.rating = 1, status = ACTUAL\<rparr>),
      (4, \<lparr>DocumentData.rating = 0, status = ACTUAL\<rparr>),
      (5, \<lparr>DocumentData.rating = 0, status = ACTUAL\<rparr>)]"
    "map_of (word_to_document_freqs' s5) ''w'' =
      Some [(1, 1 / 1000000), (2, 2 / 1000000), (3, 3 / 1000000)]"
    unfolding s5_def
    by (simp_all add: AddDocument_lookup i4 valid_x split_x avg)
  have i6: "stop_words' s6 = []"
    "documents' s6 = [(1, \<lparr>DocumentData.rating = 3, status = ACTUAL\<rparr>),
      (2, \<lparr>DocumentData.rating = 2, status = ACTUAL\<rparr>),
      (3, \<lparr>DocumentData.rating = 1, status = ACTUAL\<rparr>),
      (4, \<lparr>DocumentData.rating = 0, status = ACTUAL\<rparr>),
      (5, \<lparr>DocumentData.rating = 0, status = ACTUAL\<rparr>),
      (6, \<lparr>DocumentData.rating = 0, status = ACTUAL\<rparr>)]"
    "map_of (word_to_document_freqs' s6) ''w'' =
      Some [(1, 1 / 1000000), (2, 2 / 1000000), (3, 3 / 1000000)]"
    unfolding s6_def
    by (simp_all add: AddDocument_lookup i5 valid_x split_x avg)
  from i6 show ?thesis unfolding r by blast
qed

lemma ring_query:
  "IsValidWord ''w'' \<and>
   ParseQuery ring_server ''w'' = Some \<lparr>plus_words = [''w''], minus_words = []\<rparr>"
  by (simp add: query_defs ring_server_state)

lemma ring_find_all:
  "FindAllDocuments ring_server \<lparr>plus_words = [''w''], minus_words = []\<rparr>
     (\<lambda>document_id doc_status rating. doc_status = ACTUAL) =
   Inr [ring_item_1, ring_item_2, ring_item_3]"
  by (simp add: FindAllDocuments_def ComputeWordInverseDocumentFreq_def map_at_def map_count_def
      GetDocumentCount_def map_add_assign_def ring_server_state
      ring_item_1_def ring_item_2_def ring_item_3_def)

lemma ring_compare:
  "\<not> relevance_then_rating ring_item_2 ring_item_1"
  "relevance_then_rating ring_item_3 ring_item_1"
proof -
  have "\<bar>relevance ring_item_2 - relevance ring_item_1\<bar> < DELTA"
    using ln2_upper ln2_lower
    by (simp add: ring_item_1_def ring_item_2_def DELTA_def)
  then show "\<not> relevance_then_rating ring_item_2 ring_item_1"
    unfolding relevance_then_rating_def by (simp add: ring_item_1_def ring_item_2_def)
  have "\<not> \<bar>relevance ring_item_3 - relevance ring_item_1\<bar> < DELTA"
    "relevance ring_item_1 < relevance ring_item_3"
    using ln2_upper ln2_lower
    by (simp_all add: ring_item_1_def ring_item_3_def DELTA_def)
  then show "relevance_then_rating ring_item_3 ring_item_1"
    unfolding relevance_then_rating_def by simp
qed

lemma ring_sorted:
  "std_sort relevance_then_rating [ring_item_1, ring_item_2, ring_item_3] =
     [ring_item_3, ring_item_1, ring_item_2]"
  by (simp add: std_sort_def ring_compare)

lemma ring_near: "near_scores ring_item_3 ring_item_2"
  using ln2_upper ln2_lower
  by (simp add: near_scores_def ring_item_2_def ring_item_3_def)

lemma ring_ratings: "sint (Document.rating ring_item_3) < sint (Document.rating ring_item_2)"
  by (simp add: ring_item_2_def ring_item_3_def)

lemma ring_not_ranked: "\<not> ranked [ring_item_3, ring_item_1, ring_item_2]"
proof -
  from ring_near ring_ratings have "\<not> ranked_before ring_item_3 ring_item_2"
    by (simp add: ranked_before_def)
  then show ?thesis by (simp add: ranked_def)
qed

lemma ring_far: "\<not> near_scores ring_item_1 ring_item_3"
  using ln2_upper ln2_lower
  by (simp add: near_scores_def ring_item_1_def ring_item_3_def)

lemma ring_cycle:
  "\<not> ranked_before ring_item_1 ring_item_3"
  "\<not> ranked_before ring_item_2 ring_item_1"
  "\<not> ranked_before ring_item_3 ring_item_2"
proof -
  have "relevance ring_item_1 < relevance ring_item_3"
    using ln2_lower by (simp add: ring_item_1_def ring_item_3_def)
  with ring_far show "\<not> ranked_before ring_item_1 ring_item_3"
    by (simp add: ranked_before_def)
  have "near_scores ring_item_2 ring_item_1"
    using ln2_upper ln2_lower
    by (simp add: near_scores_def ring_item_1_def ring_item_2_def)
  then show "\<not> ranked_before ring_item_2 ring_item_1"
    by (simp add: ranked_before_def ring_item_1_def ring_item_2_def)
  from ring_near ring_ratings show "\<not> ranked_before ring_item_3 ring_item_2"
    by (simp add: ranked_before_def)
qed

lemma ring_no_ranking:
  assumes "set xs = {ring_item_1, ring_item_2, ring_item_3}"
  shows "\<not> ranked xs"
proof
  assume r: "ranked xs"
  from assms obtain h t where xs: "xs = h # t" by (cases xs) auto
  with r have first: "\<forall>y\<in>set t. ranked_before h y"
    by (simp add: ranked_def)
  have ne: "ring_item_1 \<noteq> ring_item_2" "ring_item_2 \<noteq> ring_item_3" "ring_item_1 \<noteq> ring_item_3"
    by (simp_all add: ring_item_1_def ring_item_2_def ring_item_3_def)
  from assms xs have h: "h = ring_item_1 \<or> h = ring_item_2 \<or> h = ring_item_3"
    and rest: "\<forall>y\<in>{ring_item_1, ring_item_2, ring_item_3}. y \<noteq> h \<longrightarrow> y \<in> set t"
    by auto
  from h show False
  proof (elim disjE)
    assume "h = ring_item_1"
    with rest ne first have "ranked_before ring_item_1 ring_item_3" by auto
    with ring_cycle(1) show False by contradiction
  next
    assume "h = ring_item_2"
    with rest ne first have "ranked_before ring_item_2 ring_item_1" by auto
    with ring_cycle(2) show False by contradiction
  next
    assume "h = ring_item_3"
    with rest ne first have "ranked_before ring_item_3 ring_item_2" by auto
    with ring_cycle(3) show False by contradiction
  qed
qed

text \<open>
  C2, as the claim states it, fails. In the state \<open>ring_server\<close> the scores of the
  documents 1, 2 and 3 for the query \<open>w\<close> are \<open>ln 2\<close>, \<open>2 ln 2\<close> and \<open>3 ln 2\<close>
  millionths, and their ratings are 3, 2 and 1. Neighbouring scores are near and the
  first and the last are not, so the order of the claim has a cycle: 1 before 2 and 2
  before 3 by rating, 3 before 1 by score. No order of the three is ranked (lemma
  \<open>ring_no_ranking\<close>); the list returned has 3 before 2.
\<close>

theorem ranking_cycle_counterexample:
  "FindTopDocuments_actual ring_server ''w'' =
     Inr (Some [ring_item_3, ring_item_1, ring_item_2]) \<and>
   near_scores ring_item_3 ring_item_2 \<and>
   sint (Document.rating ring_item_3) < sint (Document.rating ring_item_2) \<and>
   \<not> ranked [ring_item_3, ring_item_1, ring_item_2]"
  by (simp add: FindTopDocuments_actual_def FindTopDocuments_status_def FindTopDocuments_def
      ring_query ring_find_all ring_sorted ring_near ring_ratings ring_not_ranked
      MAX_RESULT_DOCUMENT_COUNT_def)

text \<open>
  C2, amended: for every valid query and every well-formed state, the list returned by
  \<^verbatim>\<open>FindTopDocuments\<close> has at most 5 items, and it is ranked (descending score, near
  scores in descending order of rating) whenever nearness is transitive among the scores
  of the matching documents.
\<close>

theorem find_top_documents_ranked:
  assumes "well_formed s" "IsValidWord raw_query" "ParseQuery s raw_query = Some query"
  shows "\<exists>matched result.
    FindAllDocuments s query document_predicate = Inr matched \<and>
    FindTopDocuments s raw_query document_predicate = Inr (Some result) \<and>
    length result \<le> 5 \<and>
    ((\<forall>a\<in>set matched. \<forall>b\<in>set matched. \<forall>c\<in>set matched.
        near_scores a b \<longrightarrow> near_scores b c \<longrightarrow> near_scores a c) \<longrightarrow> ranked result)"
proof -
  from FindAllDocuments_ok [OF assms(1), of query document_predicate] obtain matched where
    m: "FindAllDocuments s query document_predicate = Inr matched" by blast
  let ?result = "take MAX_RESULT_DOCUMENT_COUNT (std_sort relevance_then_rating matched)"
  have r: "FindTopDocuments s raw_query document_predicate = Inr (Some ?result)"
    by (simp add: FindTopDocuments_def assms(2,3) m)
  have l: "length ?result \<le> 5"
    by (simp add: MAX_RESULT_DOCUMENT_COUNT_def)
  have "ranked ?result"
    if "\<forall>a\<in>set matched. \<forall>b\<in>set matched. \<forall>c\<in>set matched.
        near_scores a b \<longrightarrow> near_scores b c \<longrightarrow> near_scores a c"
    using ranked_std_sort [OF that] unfolding ranked_def by (rule sorted_wrt_take)
  with m r l show ?thesis by blast
qed

lemma example_find_all_fluffy_dog:
  "FindAllDocuments example_server \<lparr>plus_words = [''dog'', ''fluffy''], minus_words = []\<rparr> accept_all =
     Inr [\<lparr>id' = 1, relevance = 0, rating = 5\<rparr>, \<lparr>id' = 3, relevance = ln 2 / 4, rating = 1\<rparr>]"
  by (simp add: example_server_eq find_defs accept_all_def)

lemma example_query_fluffy_dog:
  "IsValidWord ''fluffy dog'' \<and>
   ParseQuery example_server ''fluffy dog'' =
     Some \<lparr>plus_words = [''dog'', ''fluffy''], minus_words = []\<rparr>"
  by (simp add: example_server_eq query_defs)

theorem find_top_documents_ranked_witness:
  "\<exists>result. FindTopDocuments example_server ''fluffy dog'' accept_all = Inr (Some result) \<and>
     length result \<le> 5 \<and> ranked result"
proof -
  let ?q = "\<lparr>plus_words = [''dog'', ''fluffy''], minus_words = []\<rparr>"
  from find_top_documents_ranked [OF example_server_well_formed
      example_query_fluffy_dog [THEN conjunct1] example_query_fluffy_dog [THEN conjunct2],
      of accept_all]
  obtain matched result where
    r: "FindAllDocuments example_server ?q accept_all = Inr matched"
      "FindTopDocuments example_server ''fluffy dog'' accept_all = Inr (Some result)"
      "length result \<le> 5"
      "(\<forall>a\<in>set matched. \<forall>b\<in>set matched. \<forall>c\<in>set matched.
          near_scores a b \<longrightarrow> near_scores b c \<longrightarrow> near_scores a c) \<longrightarrow> ranked result"
    by blast
  from r(1) have m: "matched =
      [\<lparr>id' = 1, relevance = 0, rating = 5\<rparr>, \<lparr>id' = 3, relevance = ln 2 / 4, rating = 1\<rparr>]"
    by (auto simp: example_find_all_fluffy_dog)
  have "\<forall>a\<in>set matched. \<forall>b\<in>set matched. \<forall>c\<in>set matched.
          near_scores a b \<longrightarrow> near_scores b c \<longrightarrow> near_scores a c"
    unfolding m by (auto simp: near_scores_def)
  with r show ?thesis by blast
qed


section \<open>Documents of relevance zero\<close>

lemma posting_covers_store:
  assumes "well_formed s" "map_of (word_to_document_freqs' s) w = Some posting"
    and "\<forall>d\<in>fst ` set (documents' s). has_posting s w d"
  shows "length posting = length (documents' s)"
proof -
  from assms(2) have "(w, posting) \<in> set (word_to_document_freqs' s)" by (rule map_of_SomeD)
  with assms(1) have "sorted_wrt (<) (map fst posting)"
    by (auto simp: well_formed_def list_all_iff)
  then have dp: "distinct (map fst posting)" by (simp add: strict_sorted_iff)
  from assms(1) have "distinct (map fst (documents' s))"
    by (simp add: well_formed_def strict_sorted_iff)
  moreover have "set (map fst posting) = set (map fst (documents' s))"
    using well_formed_posting [OF assms(1,2)] assms(3) by (auto simp: has_posting_iff assms(2))
  ultimately have "length (map fst posting) = length (map fst (documents' s))"
    using dp by (metis distinct_card)
  then show ?thesis by simp
qed

lemma idf_zero:
  assumes "well_formed s" "has_posting s w d"
    and "\<forall>d\<in>fst ` set (documents' s). has_posting s w d"
  shows "ComputeWordInverseDocumentFreq s w = Inr 0"
proof -
  from assms(2) obtain posting where p: "map_of (word_to_document_freqs' s) w = Some posting"
    and d: "d \<in> fst ` set posting"
    by (auto simp: has_posting_iff)
  from posting_covers_store [OF assms(1) p assms(3)] have l: "length posting = length (documents' s)" .
  from d have "posting \<noteq> []" by auto
  with l have "real (length (documents' s)) \<noteq> 0" by auto
  then show ?thesis
    by (simp add: ComputeWordInverseDocumentFreq_def map_at_def p GetDocumentCount_def l)
qed

text \<open>
  C10, as the claim states it, fails: the result is cut to 5 items. In the state
  \<open>six_cats\<close> the word \<open>cat\<close> has a posting in each of the six documents, the score of
  each is 0, and document 6 is not among the five results.
\<close>

theorem six_matches_counterexample:
  "has_posting six_cats ''cat'' 6 \<and>
   map_at (word_to_document_freqs' six_cats) ''cat'' =
     Inr [(1, 1), (2, 1), (3, 1), (4, 1), (5, 1), (6, 1)] \<and>
   GetDocumentCount six_cats = 6 \<and>
   ComputeWordInverseDocumentFreq six_cats ''cat'' = Inr 0 \<and>
   map_at (documents' six_cats) 6 = Inr \<lparr>DocumentData.rating = 0, status = ACTUAL\<rparr> \<and>
   FindTopDocuments_actual six_cats ''cat'' =
     Inr (Some [\<lparr>id' = 1, relevance = 0, rating = 0\<rparr>, \<lparr>id' = 2, relevance = 0, rating = 0\<rparr>,
                \<lparr>id' = 3, relevance = 0, rating = 0\<rparr>, \<lparr>id' = 4, relevance = 0, rating = 0\<rparr>,
                \<lparr>id' = 5, relevance = 0, rating = 0\<rparr>])"
  by (simp add: six_cats_eq has_posting_def FindTopDocuments_actual_def FindTopDocuments_status_def
      find_defs query_defs)

text \<open>
  C10, amended: in a well-formed state, let a document have a posting under a required
  term of a valid query, let every required term under which it has a posting have a
  posting in every stored document, let it have no posting under an excluded term and let
  the predicate accept it. Then the inverse document frequency of those terms is
  \<open>ln 1 = 0\<close>, the document is among the matching documents with relevance exactly 0, and
  it is in the list that \<^verbatim>\<open>FindTopDocuments\<close> returns whenever at most 5 documents match.
\<close>

theorem zero_relevance_included:
  assumes "well_formed s" "IsValidWord raw_query" "ParseQuery s raw_query = Some query"
    and "\<exists>word\<in>set (plus_words query). has_posting s word document_id"
    and "\<forall>word\<in>set (plus_words query). has_posting s word document_id \<longrightarrow>
          (\<forall>d\<in>fst ` set (documents' s). has_posting s word d)"
    and "\<forall>word\<in>set (minus_words query). \<not> has_posting s word document_id"
    and "accepted s document_predicate document_id"
  shows "(\<forall>word\<in>set (plus_words query). has_posting s word document_id \<longrightarrow>
      ComputeWordInverseDocumentFreq s word = Inr 0) \<and>
    (\<exists>matched item.
      FindAllDocuments s query document_predicate = Inr matched \<and>
      item \<in> set matched \<and> id' item = document_id \<and> relevance item = 0 \<and>
      (length matched \<le> 5 \<longrightarrow>
        (\<exists>result. FindTopDocuments s raw_query document_predicate = Inr (Some result) \<and>
           item \<in> set result)))"
proof -
  from FindAllDocuments_ok [OF assms(1), of query document_predicate] obtain rel where
    rel: "FindAllDocuments s query document_predicate = Inr (map (result_item s) rel)"
      "\<forall>d. (\<forall>w\<in>set (plus_words query).
              has_posting s w d \<longrightarrow> ComputeWordInverseDocumentFreq s w = Inr 0)
        \<longrightarrow> matches s query document_predicate d \<longrightarrow> (d, 0) \<in> set rel"
    by blast
  have m: "matches s query document_predicate document_id"
    using assms(4,6,7) by (simp add: matches_def list_ex_iff)
  have z: "\<forall>w\<in>set (plus_words query).
      has_posting s w document_id \<longrightarrow> ComputeWordInverseDocumentFreq s w = Inr 0"
    using assms(5) idf_zero [OF assms(1)] by blast
  from rel(2) m z have mem: "(document_id, 0) \<in> set rel" by blast
  let ?item = "result_item s (document_id, 0)"
  let ?matched = "map (result_item s) rel"
  have i: "?item \<in> set ?matched" using mem by auto
  have "\<exists>result. FindTopDocuments s raw_query document_predicate = Inr (Some result) \<and>
         ?item \<in> set result" if "length ?matched \<le> 5"
  proof -
    have "take MAX_RESULT_DOCUMENT_COUNT (std_sort relevance_then_rating ?matched) =
        std_sort relevance_then_rating ?matched"
      using that by (simp add: MAX_RESULT_DOCUMENT_COUNT_def length_std_sort)
    then have "FindTopDocuments s raw_query document_predicate =
        Inr (Some (std_sort relevance_then_rating ?matched))"
      by (simp add: FindTopDocuments_def assms(2,3) rel(1))
    moreover have "?item \<in> set (std_sort relevance_then_rating ?matched)"
      using i by (simp only: set_std_sort)
    ultimately show ?thesis by blast
  qed
  with rel(1) i have "\<exists>matched item.
      FindAllDocuments s query document_predicate = Inr matched \<and>
      item \<in> set matched \<and> id' item = document_id \<and> relevance item = 0 \<and>
      (length matched \<le> 5 \<longrightarrow>
        (\<exists>result. FindTopDocuments s raw_query document_predicate = Inr (Some result) \<and>
           item \<in> set result))"
    by (intro exI [of _ ?matched] exI [of _ ?item]) (simp add: result_item_def)
  with z show ?thesis by (rule conjI)
qed

lemma example_find_all_fluffy:
  "FindAllDocuments example_server \<lparr>plus_words = [''fluffy''], minus_words = []\<rparr> accept_all =
     Inr [\<lparr>id' = 1, relevance = 0, rating = 5\<rparr>, \<lparr>id' = 3, relevance = 0, rating = 1\<rparr>]"
  by (simp add: example_server_eq find_defs accept_all_def)

lemma example_query_fluffy:
  "IsValidWord ''fluffy'' \<and>
   ParseQuery example_server ''fluffy'' = Some \<lparr>plus_words = [''fluffy''], minus_words = []\<rparr>"
  by (simp add: example_server_eq query_defs)

theorem zero_relevance_included_witness:
  "\<exists>result item. FindTopDocuments example_server ''fluffy'' accept_all = Inr (Some result) \<and>
     item \<in> set result \<and> id' item = 1 \<and> relevance item = 0"
proof -
  let ?q = "\<lparr>plus_words = [''fluffy''], minus_words = []\<rparr>"
  have h1: "\<exists>word\<in>set (plus_words ?q). has_posting example_server word 1"
    by (simp add: has_posting_def example_server_eq map_count_def)
  have h2: "\<forall>word\<in>set (plus_words ?q). has_posting example_server word 1 \<longrightarrow>
      (\<forall>d\<in>fst ` set (documents' example_server). has_posting example_server word d)"
    by (simp add: has_posting_def example_server_eq map_count_def)
  have h3: "\<forall>word\<in>set (minus_words ?q). \<not> has_posting example_server word 1"
    by simp
  have h4: "accepted example_server accept_all 1"
    by (simp add: accepted_def example_server_eq accept_all_def)
  from zero_relevance_included [OF example_server_well_formed
      example_query_fluffy [THEN conjunct1] example_query_fluffy [THEN conjunct2] h1 h2 h3 h4,
      THEN conjunct2]
  obtain matched item where
    r: "FindAllDocuments example_server ?q accept_all = Inr matched"
      "item \<in> set matched" "id' item = 1" "relevance item = 0"
      "length matched \<le> 5 \<longrightarrow>
        (\<exists>result. FindTopDocuments example_server ''fluffy'' accept_all = Inr (Some result) \<and>
           item \<in> set result)"
    by blast
  from r(1) have "length matched \<le> 5"
    by (auto simp: example_find_all_fluffy)
  with r show ?thesis by blast
qed


end
